theory Spec2Isabelle
  imports Complex_Main
begin

section \<open>JavaScript strings and the string primitives the library calls\<close>

text \<open>
  A JavaScript string is a sequence of UTF-16 code units. The word-boundary set of
  \<open>index.ts\<close> holds the en dash (U+2013) and the em dash (U+2014), and \<open>normalize.ts\<close>
  works on U+0300 to U+036F, U+0142 and U+00F1, so a code unit is a natural number here
  and a string is a list of them. Indices are JavaScript numbers holding integers
  (\<open>-1\<close> for "not found", \<open>-2\<close> as a start value), hence \<open>int\<close>. A score is a
  JavaScript number that need not be an integer: a double, modelled by the rational it
  stands for, with the arithmetic of doubles written out below.
\<close>

type_synonym code_unit = nat
type_synonym jstring = "code_unit list"
type_synonym range = "int \<times> int"
type_synonym highlight_ranges = "range list"
type_synonym match = "(rat \<times> highlight_ranges) option"

definition ascii :: "string \<Rightarrow> jstring" where
  "ascii s = map of_char s"

definition strlen :: "jstring \<Rightarrow> int" where
  "strlen s = int (length s)"

text \<open>\<open>s[i]\<close>: the code unit at index \<open>i\<close>, \<open>undefined\<close> (None) out of range.\<close>

definition charAt :: "jstring \<Rightarrow> int \<Rightarrow> code_unit option" where
  "charAt s i = (if 0 \<le> i \<and> i < strlen s then Some (s ! nat i) else None)"

text \<open>\<open>s.startsWith(p)\<close>.\<close>

definition startsWith :: "jstring \<Rightarrow> jstring \<Rightarrow> bool" where
  "startsWith s p = (take (length p) s = p)"

text \<open>
  \<open>s.indexOf(pat, pos)\<close>: the least index \<open>k\<close> with \<open>clamp(pos) \<le> k\<close> at which \<open>pat\<close>
  occurs in \<open>s\<close>, else \<open>-1\<close>. \<open>find_from pat t k\<close> scans the suffix \<open>t\<close> of \<open>s\<close> that
  starts at index \<open>k\<close>.
\<close>

fun find_from :: "jstring \<Rightarrow> jstring \<Rightarrow> nat \<Rightarrow> int" where
  "find_from pat [] k = (if pat = [] then int k else - 1)"
| "find_from pat (c # cs) k =
     (if startsWith (c # cs) pat then int k else find_from pat cs (Suc k))"

definition indexOf :: "jstring \<Rightarrow> jstring \<Rightarrow> int \<Rightarrow> int" where
  "indexOf s pat pos =
     (let start = nat (min (max pos 0) (strlen s))
      in find_from pat (drop start s) start)"

text \<open>
  The argument of \<open>indexOf\<close> is converted to a string: a one-unit string for a code unit
  read from the query, the text \<open>undefined\<close> for a read past the end of the query.
\<close>

definition searchString :: "code_unit option \<Rightarrow> jstring" where
  "searchString c = (case c of Some u \<Rightarrow> [u]
     | None \<Rightarrow> [117, 110, 100, 101, 102, 105, 110, 101, 100])"

text \<open>\<open>s.slice(a, b)\<close>: a negative index counts from the end, both are clamped.\<close>

definition slice :: "jstring \<Rightarrow> int \<Rightarrow> int \<Rightarrow> jstring" where
  "slice s a b =
     (let n = strlen s;
          from = (if a < 0 then max (n + a) 0 else min a n);
          to = (if b < 0 then max (n + b) 0 else min b n)
      in take (nat (to - from)) (drop (nat from) s))"

text \<open>\<open>s.split(" ")\<close>: the pieces between single spaces; never the empty list.\<close>

fun split_space :: "jstring \<Rightarrow> jstring list" where
  "split_space [] = [[]]"
| "split_space (c # cs) =
     (if c = 32 then [] # split_space cs
      else (case split_space cs of
              w # ws \<Rightarrow> (c # w) # ws
            | [] \<Rightarrow> [[c]]))"

text \<open>
  \<open>xs.sort(cmp)\<close>: the sort of the platform is stable and puts \<open>a\<close> before \<open>b\<close> when
  \<open>cmp(a, b) \<le> 0\<close>; it is modelled as a stable insertion sort driven by the
  comparator of the source.
\<close>

fun insert_by :: "('a \<Rightarrow> 'a \<Rightarrow> 'b::{zero,ord}) \<Rightarrow> 'a \<Rightarrow> 'a list \<Rightarrow> 'a list" where
  "insert_by cmp x [] = [x]"
| "insert_by cmp x (y # ys) =
     (if cmp x y \<le> 0 then x # y # ys else y # insert_by cmp x ys)"

definition sort_by :: "('a \<Rightarrow> 'a \<Rightarrow> 'b::{zero,ord}) \<Rightarrow> 'a list \<Rightarrow> 'a list" where
  "sort_by cmp xs = foldr (insert_by cmp) xs []"

section \<open>JavaScript numbers: the arithmetic of doubles\<close>

text \<open>
  A double is modelled by its exact value, a rational. A decimal literal of the source
  and the result of \<open>+\<close>, \<open>-\<close> and \<open>*\<close> on scores is the exact value rounded to the
  nearest double, a number \<open>m * 2^e\<close> with a mantissa \<open>m\<close> of 53 bits, ties going to
  the even mantissa: \<open>double\<close>. The exponent is not bounded here. The scores of this
  library lie between 0.1 and \<open>2 + 1.6 * 2^53\<close> (a string has fewer than \<open>2^53\<close>
  code units), far from the overflow and the subnormal range of doubles, and the
  difference of two doubles is never rounded to zero. The length of an array is an
  integer below \<open>2^32\<close>, a double as it is.

  \<open>bits n\<close> is the number of binary digits of \<open>n\<close>, \<open>ilog2 x\<close> the integer part of the
  binary logarithm of a positive \<open>x\<close>, \<open>scale x e\<close> is \<open>x * 2^e\<close>.
\<close>

function bits :: "int \<Rightarrow> nat" where
  "bits n = (if n \<le> 0 then 0 else Suc (bits (n div 2)))"
  by pat_completeness auto
termination
  by (relation "measure nat") auto

definition ilog2 :: "rat \<Rightarrow> int" where
  "ilog2 x =
     (if 1 \<le> x then int (bits \<lfloor>x\<rfloor>) - 1
      else let y = 1 / x
           in - int (bits (if y \<le> of_int \<lfloor>y\<rfloor> then \<lfloor>y\<rfloor> - 1 else \<lfloor>y\<rfloor>)))"

definition scale :: "rat \<Rightarrow> int \<Rightarrow> rat" where
  "scale x e = (if 0 \<le> e then x * 2 ^ nat e else x / 2 ^ nat (- e))"

definition round_half_even :: "rat \<Rightarrow> int" where
  "round_half_even y =
     (let f = \<lfloor>y\<rfloor>; r = y - of_int f
      in if r < 1 / 2 then f else if 1 / 2 < r then f + 1
         else if even f then f else f + 1)"

definition double :: "rat \<Rightarrow> rat" where
  "double x =
     (if x = 0 then 0
      else let a = \<bar>x\<bar>; e = ilog2 a - 52; m = round_half_even (scale a (- e))
           in sgn x * scale (of_int m) e)"

text \<open>\<open>a + b\<close>, \<open>a - b\<close> and \<open>a * b\<close> on doubles.\<close>

definition dadd :: "rat \<Rightarrow> rat \<Rightarrow> rat" where
  "dadd a b = double (a + b)"

definition dsub :: "rat \<Rightarrow> rat \<Rightarrow> rat" where
  "dsub a b = double (a - b)"

definition dmul :: "rat \<Rightarrow> rat \<Rightarrow> rat" where
  "dmul a b = double (a * b)"

section \<open>normalize.ts\<close>

text \<open>
  \<open>toLowerCase\<close> and \<open>normalize("NFD")\<close> belong to the platform and rest on the
  Unicode character database; \<open>normalizeText\<close> takes them as parameters. The three
  \<open>replace\<close> calls and \<open>trim\<close> are written out.
\<close>

record unicode =
  toLowerCase :: "jstring \<Rightarrow> jstring"
  normalizeNFD :: "jstring \<Rightarrow> jstring"

definition diacritic :: "code_unit \<Rightarrow> bool" where
  "diacritic c = (768 \<le> c \<and> c \<le> 879)"

definition replace_diacritics :: "jstring \<Rightarrow> jstring" where
  "replace_diacritics s = filter (\<lambda>c. \<not> diacritic c) s"

definition replace_l :: "jstring \<Rightarrow> jstring" where
  "replace_l s = map (\<lambda>c. if c = 322 then 108 else c) s"

definition replace_n :: "jstring \<Rightarrow> jstring" where
  "replace_n s = map (\<lambda>c. if c = 241 then 110 else c) s"

text \<open>The white space and line terminators that \<open>trim\<close> removes at both ends.\<close>

definition isWhiteSpace :: "code_unit \<Rightarrow> bool" where
  "isWhiteSpace c =
     (c \<in> {9, 10, 11, 12, 13, 32, 160, 5760, 8232, 8233, 8239, 8287, 12288, 65279}
      \<or> (8192 \<le> c \<and> c \<le> 8202))"

definition trim :: "jstring \<Rightarrow> jstring" where
  "trim s = rev (dropWhile isWhiteSpace (rev (dropWhile isWhiteSpace s)))"

definition normalizeText :: "unicode \<Rightarrow> jstring \<Rightarrow> jstring" where
  "normalizeText U str =
     trim (replace_n (replace_l (replace_diacritics (normalizeNFD U (toLowerCase U str)))))"

section \<open>index.ts: boundary classifier and consecutive-run scorer\<close>

text \<open>
  \<open>validWordBoundaries\<close> is the set of the code units of the literal in the source:
  space, the square and round brackets, hyphen, en dash, em dash, apostrophe and the
  straight double quote. \<open>Set.has(undefined)\<close> is false.
\<close>

definition validWordBoundaries :: "code_unit set" where
  "validWordBoundaries = {32, 91, 93, 40, 41, 45, 8211, 8212, 39, 34}"

definition isValidWordBoundary :: "code_unit option \<Rightarrow> bool" where
  "isValidWordBoundary char = (case char of None \<Rightarrow> False | Some c \<Rightarrow> c \<in> validWordBoundaries)"

text \<open>
  The body of the \<open>for\<close> loop of \<open>scoreConsecutiveLetters\<close>: the addend of one chunk,
  which \<open>score +=\<close> adds to the running score as doubles are added.
\<close>

definition chunkPenalty :: "jstring \<Rightarrow> range \<Rightarrow> rat" where
  "chunkPenalty normalizedItem r =
     (let firstIdx = fst r; lastIdx = snd r;
          chunkLength = lastIdx - firstIdx + 1;
          isStartOfWord = (firstIdx = 0 \<or> charAt normalizedItem (firstIdx - 1) = Some 32);
          isEndOfWord = (lastIdx = strlen normalizedItem - 1
                         \<or> charAt normalizedItem (lastIdx + 1) = Some 32)
      in if isStartOfWord \<and> isEndOfWord then double (2 / 10)
         else if isStartOfWord then double (4 / 10)
         else if chunkLength \<ge> 3 then double (8 / 10)
         else double (16 / 10))"

fun scoreChunks :: "jstring \<Rightarrow> highlight_ranges \<Rightarrow> rat \<Rightarrow> rat" where
  "scoreChunks normalizedItem [] score = score"
| "scoreChunks normalizedItem (r # rest) score =
     scoreChunks normalizedItem rest (dadd score (chunkPenalty normalizedItem r))"

definition scoreConsecutiveLetters :: "highlight_ranges \<Rightarrow> jstring \<Rightarrow> rat \<times> highlight_ranges" where
  "scoreConsecutiveLetters indices normalizedItem =
     (scoreChunks normalizedItem indices 2, indices)"

section \<open>index.ts: the two fuzzy matchers\<close>

text \<open>
  In both matchers the variable \<open>queryChar\<close> is assigned together with \<open>queryIdx\<close>,
  always to \<open>normalizedQuery[queryIdx]\<close>; the model reads it from the query at each use.
\<close>

subsection \<open>aggressiveFuzzyMatch\<close>

text \<open>
  The \<open>for\<close> loop over \<open>itemIdx\<close>, with the loop variables as arguments. Falling out of
  the loop is \<open>return null\<close>.
\<close>

function aggressive_loop ::
  "jstring \<Rightarrow> jstring \<Rightarrow> int \<Rightarrow> int \<Rightarrow> highlight_ranges \<Rightarrow> int \<Rightarrow> int \<Rightarrow> match" where
  "aggressive_loop normalizedItem normalizedQuery itemIdx queryIdx indices chunkFirstIdx chunkLastIdx =
     (if itemIdx < strlen normalizedItem then
        (if charAt normalizedItem itemIdx = charAt normalizedQuery queryIdx then
           (let indices1 = (if itemIdx \<noteq> chunkLastIdx + 1 \<and> chunkFirstIdx \<ge> 0
                            then indices @ [(chunkFirstIdx, chunkLastIdx)] else indices);
                chunkFirstIdx1 = (if itemIdx \<noteq> chunkLastIdx + 1 then itemIdx else chunkFirstIdx);
                chunkLastIdx1 = itemIdx;
                queryIdx1 = queryIdx + 1
            in if queryIdx1 = strlen normalizedQuery
               then Some (scoreConsecutiveLetters
                            (indices1 @ [(chunkFirstIdx1, chunkLastIdx1)]) normalizedItem)
               else aggressive_loop normalizedItem normalizedQuery (itemIdx + 1) queryIdx1
                      indices1 chunkFirstIdx1 chunkLastIdx1)
         else aggressive_loop normalizedItem normalizedQuery (itemIdx + 1) queryIdx
                indices chunkFirstIdx chunkLastIdx)
      else None)"
  by pat_completeness auto
termination
  by (relation "measure (\<lambda>(normalizedItem, normalizedQuery, itemIdx, rest).
                            nat (strlen normalizedItem - itemIdx))") auto

definition aggressiveFuzzyMatch :: "jstring \<Rightarrow> jstring \<Rightarrow> match" where
  "aggressiveFuzzyMatch normalizedItem normalizedQuery =
     aggressive_loop normalizedItem normalizedQuery 0 0 [] (- 1) (- 2)"

subsection \<open>smartFuzzyMatch\<close>

text \<open>
  The inner \<open>for\<close> loop that extends a chunk: it returns the loop variables
  \<open>chunkLastIdx\<close> (one past the chunk) and \<open>queryIdx\<close> at its exit.
\<close>

function extend_chunk :: "jstring \<Rightarrow> jstring \<Rightarrow> int \<Rightarrow> int \<Rightarrow> int \<times> int" where
  "extend_chunk normalizedItem normalizedQuery chunkLastIdx queryIdx =
     (if chunkLastIdx < strlen normalizedItem then
        (if charAt normalizedItem chunkLastIdx \<noteq> charAt normalizedQuery queryIdx
         then (chunkLastIdx, queryIdx)
         else extend_chunk normalizedItem normalizedQuery (chunkLastIdx + 1) (queryIdx + 1))
      else (chunkLastIdx, queryIdx))"
  by pat_completeness auto
termination
  by (relation "measure (\<lambda>(normalizedItem, normalizedQuery, chunkLastIdx, queryIdx).
                            nat (strlen normalizedItem - chunkLastIdx))") auto

text \<open>
  One pass through the body of \<open>while (true)\<close>: it leaves the loop by \<open>break\<close>, returns
  from the function, or goes round again with new values of \<open>queryIdx\<close>,
  \<open>chunkLastIdx\<close> and \<open>indices\<close>. \<open>chunkFirstIdx\<close> is assigned in every pass before it
  is read, so it is local to the pass.
\<close>

datatype pass = Break | Return "rat \<times> highlight_ranges" | Continue int int highlight_ranges

text \<open>The part of the body after a chunk start has been accepted.\<close>

definition take_chunk :: "jstring \<Rightarrow> jstring \<Rightarrow> int \<Rightarrow> int \<Rightarrow> highlight_ranges \<Rightarrow> pass" where
  "take_chunk normalizedItem normalizedQuery queryIdx chunkFirstIdx indices =
     (let (chunkLastIdx0, queryIdx1) =
            extend_chunk normalizedItem normalizedQuery chunkFirstIdx queryIdx;
          chunkLastIdx1 = chunkLastIdx0 - 1;
          indices1 = indices @ [(chunkFirstIdx, chunkLastIdx1)]
      in if queryIdx1 = strlen normalizedQuery
         then Return (scoreConsecutiveLetters indices1 normalizedItem)
         else Continue queryIdx1 chunkLastIdx1 indices1)"

definition smart_pass :: "jstring \<Rightarrow> jstring \<Rightarrow> int \<Rightarrow> int \<Rightarrow> highlight_ranges \<Rightarrow> pass" where
  "smart_pass normalizedItem normalizedQuery queryIdx chunkLastIdx indices =
     (let idx = indexOf normalizedItem
                  (searchString (charAt normalizedQuery queryIdx)) (chunkLastIdx + 1)
      in if idx = - 1 then Break
         else if idx = 0 \<or> isValidWordBoundary (charAt normalizedItem (idx - 1))
         then take_chunk normalizedItem normalizedQuery queryIdx idx indices
         else
           (let queryCharsLeft = strlen normalizedQuery - queryIdx;
                itemCharsLeft = strlen normalizedItem - idx;
                minChunkLen = min 3 (min queryCharsLeft itemCharsLeft);
                minQueryChunk = slice normalizedQuery queryIdx (queryIdx + minChunkLen)
            in if slice normalizedItem idx (idx + minChunkLen) = minQueryChunk
               then take_chunk normalizedItem normalizedQuery queryIdx idx indices
               else Continue queryIdx (chunkLastIdx + 1) indices))"

text \<open>
  The \<open>while (true)\<close> loop has no bound in the source, so it is a partial function:
  \<open>None\<close> stands for a loop that never ends, \<open>Some None\<close> for \<open>return null\<close>.
\<close>

partial_function (option) smart_loop ::
  "jstring \<Rightarrow> jstring \<Rightarrow> int \<Rightarrow> int \<Rightarrow> highlight_ranges \<Rightarrow> match option" where
  "smart_loop normalizedItem normalizedQuery queryIdx chunkLastIdx indices =
     (case smart_pass normalizedItem normalizedQuery queryIdx chunkLastIdx indices of
        Break \<Rightarrow> Some None
      | Return r \<Rightarrow> Some (Some r)
      | Continue queryIdx1 chunkLastIdx1 indices1 \<Rightarrow>
          smart_loop normalizedItem normalizedQuery queryIdx1 chunkLastIdx1 indices1)"

definition smartFuzzyMatch :: "jstring \<Rightarrow> jstring \<Rightarrow> match option" where
  "smartFuzzyMatch normalizedItem normalizedQuery =
     smart_loop normalizedItem normalizedQuery 0 (- 2) []"

text \<open>The same loop cut off after a given number of passes, to count them.\<close>

fun smart_passes :: "nat \<Rightarrow> jstring \<Rightarrow> jstring \<Rightarrow> int \<Rightarrow> int \<Rightarrow> highlight_ranges \<Rightarrow> match option" where
  "smart_passes 0 normalizedItem normalizedQuery queryIdx chunkLastIdx indices = None"
| "smart_passes (Suc n) normalizedItem normalizedQuery queryIdx chunkLastIdx indices =
     (case smart_pass normalizedItem normalizedQuery queryIdx chunkLastIdx indices of
        Break \<Rightarrow> Some None
      | Return r \<Rightarrow> Some (Some r)
      | Continue queryIdx1 chunkLastIdx1 indices1 \<Rightarrow>
          smart_passes n normalizedItem normalizedQuery queryIdx1 chunkLastIdx1 indices1)"

section \<open>index.ts: the orchestrator and the two entry points\<close>

datatype strategy = Off | Smart | Aggressive

definition sortRangeTuple :: "range \<Rightarrow> range \<Rightarrow> int" where
  "sortRangeTuple a b = fst a - fst b"

definition wordRange :: "jstring \<Rightarrow> jstring \<Rightarrow> range" where
  "wordRange normalizedItem w = (let i = indexOf normalizedItem w 0 in (i, i + strlen w - 1))"

definition matchesFuzzily ::
  "jstring \<Rightarrow> jstring \<Rightarrow> jstring set \<Rightarrow> jstring \<Rightarrow> jstring \<Rightarrow> jstring list \<Rightarrow> strategy
     \<Rightarrow> match option" where
  "matchesFuzzily item normalizedItem itemWords query normalizedQuery queryWords strategy =
     (if item = query then Some (Some (0, [(0, strlen item - 1)]))
      else
        let queryLen = strlen query;
            normalizedItemLen = strlen normalizedItem;
            normalizedQueryLen = strlen normalizedQuery
        in if normalizedItem = normalizedQuery
           then Some (Some (double (1 / 10), [(0, normalizedItemLen - 1)]))
           else if startsWith normalizedItem normalizedQuery
           then Some (Some (double (5 / 10), [(0, normalizedQueryLen - 1)]))
           else
             let exactContainsIdx = indexOf item query 0
             in if exactContainsIdx > - 1
                   \<and> isValidWordBoundary (charAt item (exactContainsIdx - 1))
                then Some (Some (double (9 / 10),
                                 [(exactContainsIdx, exactContainsIdx + queryLen - 1)]))
                else
                  let containsIdx = indexOf normalizedItem normalizedQuery 0
                  in if containsIdx > - 1
                        \<and> isValidWordBoundary (charAt normalizedItem (containsIdx - 1))
                     then Some (Some (1, [(containsIdx, containsIdx + queryLen - 1)]))
                     else if length queryWords > 1 \<and> list_all (\<lambda>w. w \<in> itemWords) queryWords
                     then Some (Some (dadd (double (15 / 10))
                                        (dmul (of_nat (length queryWords)) (double (2 / 10))),
                                      sort_by sortRangeTuple
                                        (map (wordRange normalizedItem) queryWords)))
                     else if containsIdx > - 1
                     then Some (Some (2, [(containsIdx, containsIdx + queryLen - 1)]))
                     else if strategy = Aggressive
                     then Some (aggressiveFuzzyMatch normalizedItem normalizedQuery)
                     else if strategy = Smart
                     then smartFuzzyMatch normalizedItem normalizedQuery
                     else Some None)"

record 'a FuzzyResult =
  item :: 'a
  score :: rat
  matches :: "highlight_ranges option list"

definition fuzzyMatch :: "unicode \<Rightarrow> jstring \<Rightarrow> jstring \<Rightarrow> jstring FuzzyResult option option" where
  "fuzzyMatch U text query =
     (let normalizedQuery = normalizeText U query;
          queryWords = split_space normalizedQuery;
          normalizedText = normalizeText U text;
          itemWords = set (split_space normalizedText)
      in case matchesFuzzily text normalizedText itemWords query normalizedQuery queryWords Smart of
           None \<Rightarrow> None
         | Some None \<Rightarrow> Some None
         | Some (Some result) \<Rightarrow>
             Some (Some \<lparr>item = text, score = fst result, matches = [Some (snd result)]\<rparr>))"

text \<open>
  The options of \<open>createFuzzySearch\<close>; a field that is absent is \<open>None\<close>. An element of
  the collection has the type parameter of the source; \<open>readKey\<close> is the property read
  \<open>element[key]\<close> (a null or missing property is \<open>None\<close>) and \<open>readString\<close> the
  element taken as a string.
\<close>

record 'a FuzzySearchOptions =
  strategy :: "strategy option"
  getText :: "('a \<Rightarrow> jstring option list) option"
  key :: "jstring option"

record 'a reader =
  readKey :: "'a \<Rightarrow> jstring \<Rightarrow> jstring option"
  readString :: "'a \<Rightarrow> jstring option"

definition MAX_SAFE_INTEGER :: rat where
  "MAX_SAFE_INTEGER = 9007199254740991"

definition sortByScore :: "'a FuzzyResult \<Rightarrow> 'a FuzzyResult \<Rightarrow> rat" where
  "sortByScore a b = dsub (score a) (score b)"

definition preprocess ::
  "unicode \<Rightarrow> 'a reader \<Rightarrow> 'a FuzzySearchOptions \<Rightarrow> 'a
     \<Rightarrow> 'a \<times> (jstring \<times> jstring \<times> jstring set) list" where
  "preprocess U R options element =
     (let texts =
            (case getText options of
               Some f \<Rightarrow> f element
             | None \<Rightarrow>
                 (case key options of
                    Some k \<Rightarrow> if k \<noteq> [] then [readKey R element k] else [readString R element]
                  | None \<Rightarrow> [readString R element]));
          processed =
            map (\<lambda>text.
                   let item = (case text of Some t \<Rightarrow> t | None \<Rightarrow> []);
                       normalized = normalizeText U item
                   in (item, normalized, set (split_space normalized)))
                texts
      in (element, processed))"

text \<open>The inner \<open>for\<close> loop over the texts of one element.\<close>

fun texts_loop ::
  "jstring \<Rightarrow> jstring \<Rightarrow> jstring list \<Rightarrow> strategy \<Rightarrow> (jstring \<times> jstring \<times> jstring set) list
     \<Rightarrow> rat \<Rightarrow> highlight_ranges option list \<Rightarrow> (rat \<times> highlight_ranges option list) option" where
  "texts_loop query normalizedQuery queryWords strat [] bestScore ms = Some (bestScore, ms)"
| "texts_loop query normalizedQuery queryWords strat (t # texts) bestScore ms =
     (let (item, normalizedItem, itemWords) = t in
        (case matchesFuzzily item normalizedItem itemWords query normalizedQuery queryWords strat of
           None \<Rightarrow> None
         | Some (Some result) \<Rightarrow>
             texts_loop query normalizedQuery queryWords strat texts
               (min bestScore (fst result)) (ms @ [Some (snd result)])
         | Some None \<Rightarrow>
             texts_loop query normalizedQuery queryWords strat texts bestScore (ms @ [None])))"

text \<open>The outer \<open>for\<close> loop over the preprocessed collection.\<close>

fun elements_loop ::
  "jstring \<Rightarrow> jstring \<Rightarrow> jstring list \<Rightarrow> strategy
     \<Rightarrow> ('a \<times> (jstring \<times> jstring \<times> jstring set) list) list
     \<Rightarrow> 'a FuzzyResult list \<Rightarrow> 'a FuzzyResult list option" where
  "elements_loop query normalizedQuery queryWords strat [] results = Some results"
| "elements_loop query normalizedQuery queryWords strat ((element, texts) # rest) results =
     (case texts_loop query normalizedQuery queryWords strat texts MAX_SAFE_INTEGER [] of
        None \<Rightarrow> None
      | Some (bestScore, ms) \<Rightarrow>
          elements_loop query normalizedQuery queryWords strat rest
            (if bestScore < MAX_SAFE_INTEGER
             then results @ [\<lparr>item = element, score = bestScore, matches = ms\<rparr>]
             else results))"

definition createFuzzySearch ::
  "unicode \<Rightarrow> 'a reader \<Rightarrow> 'a list \<Rightarrow> 'a FuzzySearchOptions \<Rightarrow> jstring
     \<Rightarrow> 'a FuzzyResult list option" where
  "createFuzzySearch U R collection options query =
     (let strat = (case strategy options of Some s \<Rightarrow> s | None \<Rightarrow> Smart);
          preprocessed = map (preprocess U R options) collection;
          normalizedQuery = normalizeText U query;
          queryWords = split_space normalizedQuery
      in if normalizedQuery = [] then Some []
         else (case elements_loop query normalizedQuery queryWords strat preprocessed [] of
                 None \<Rightarrow> None
               | Some results \<Rightarrow> Some (sort_by sortByScore results)))"

section \<open>A fragment of the platform, for concrete runs\<close>

text \<open>
  \<open>toLowerCase\<close> and \<open>normalize("NFD")\<close> on strings made of ASCII characters, the
  combining grapheme joiner U+034F, and the Arabic letter meem U+0645 with the marks
  fatha U+064E and shadda U+0651. Of these only A to Z change under \<open>toLowerCase\<close>;
  none has a canonical decomposition, so \<open>normalize("NFD")\<close> only puts each run of
  marks in the order of their canonical combining class. In the Unicode character
  database the class is 30 for fatha, 33 for shadda and 0 for every other character
  named here, the joiner included; a character of class 0 ends a run of marks.
\<close>

definition ccc :: "code_unit \<Rightarrow> nat" where
  "ccc c = (if c = 1614 then 30 else if c = 1617 then 33 else 0)"

fun place_mark :: "code_unit \<Rightarrow> jstring \<Rightarrow> jstring" where
  "place_mark c [] = [c]"
| "place_mark c (x # xs) =
     (if 0 < ccc c \<and> ccc c < ccc x then x # place_mark c xs else c # x # xs)"

definition canonical_order :: "jstring \<Rightarrow> jstring" where
  "canonical_order s = rev (foldl (\<lambda>acc c. place_mark c acc) [] s)"

definition ascii_lower :: "jstring \<Rightarrow> jstring" where
  "ascii_lower s = map (\<lambda>c. if 65 \<le> c \<and> c \<le> 90 then c + 32 else c) s"

definition fragment :: unicode where
  "fragment = \<lparr>toLowerCase = ascii_lower, normalizeNFD = canonical_order\<rparr>"

definition strings :: "jstring reader" where
  "strings = \<lparr>readKey = (\<lambda>e k. None), readString = Some\<rparr>"

section \<open>The scorer as the specification words it\<close>

text \<open>
  The formula of the specification for the consecutive-run scorer, with the test for a
  boundary character left open: base 2, and for each chunk 0.2 when it starts at a
  boundary (or index 0) and ends at a boundary (or the end of the string), else 0.4
  when it starts at a boundary, else 0.8 when it is at least 3 long, else 1.6. The
  addends are added to the base one after the other, in the order of the chunks.
\<close>

definition specChunkPenalty :: "(code_unit option \<Rightarrow> bool) \<Rightarrow> jstring \<Rightarrow> range \<Rightarrow> rat" where
  "specChunkPenalty boundary normalizedItem r =
     (let startsAtBoundary = (fst r = 0 \<or> boundary (charAt normalizedItem (fst r - 1)));
          endsAtBoundary = (snd r = strlen normalizedItem - 1
                            \<or> boundary (charAt normalizedItem (snd r + 1)))
      in if startsAtBoundary \<and> endsAtBoundary then double (2 / 10)
         else if startsAtBoundary then double (4 / 10)
         else if snd r - fst r + 1 \<ge> 3 then double (8 / 10)
         else double (16 / 10))"

definition specScore :: "(code_unit option \<Rightarrow> bool) \<Rightarrow> highlight_ranges \<Rightarrow> jstring \<Rightarrow> rat" where
  "specScore boundary indices normalizedItem =
     foldl (\<lambda>score r. dadd score (specChunkPenalty boundary normalizedItem r)) 2 indices"

definition isSpace :: "code_unit option \<Rightarrow> bool" where
  "isSpace c = (c = Some 32)"

section \<open>Conditions of the tiers, as the orchestrator tests them\<close>

text \<open>
  The tests of \<open>matchesFuzzily\<close> in the order of the source, named so that a theorem
  can say which tiers did not apply: the three tests before the substring searches
  (equal, equal after normalization, prefix after normalization), the exact-case
  contains test, the normalized contains test and the multi-word test.
\<close>

definition prefixTiersApply :: "jstring \<Rightarrow> jstring \<Rightarrow> jstring \<Rightarrow> jstring \<Rightarrow> bool" where
  "prefixTiersApply itm normalizedItem query normalizedQuery =
     (itm = query \<or> normalizedItem = normalizedQuery
      \<or> startsWith normalizedItem normalizedQuery)"

definition multiWordApplies :: "jstring list \<Rightarrow> jstring set \<Rightarrow> bool" where
  "multiWordApplies queryWords itemWords =
     (length queryWords > 1 \<and> list_all (\<lambda>w. w \<in> itemWords) queryWords)"

definition exactContainsApplies :: "jstring \<Rightarrow> jstring \<Rightarrow> bool" where
  "exactContainsApplies itm query =
     (indexOf itm query 0 > - 1
      \<and> isValidWordBoundary (charAt itm (indexOf itm query 0 - 1)))"

definition containsApplies :: "jstring \<Rightarrow> jstring \<Rightarrow> bool" where
  "containsApplies normalizedItem normalizedQuery =
     (indexOf normalizedItem normalizedQuery 0 > - 1
      \<and> isValidWordBoundary
            (charAt normalizedItem (indexOf normalizedItem normalizedQuery 0 - 1)))"

section \<open>Properties of chunk lists\<close>

text \<open>
  Ranges are pairwise non-overlapping when each ends before every later one starts.
  A chunk is an isolated letter when it is a single character that is not at index 0
  and whose preceding character is not a word-boundary character.
\<close>

definition nonOverlapping :: "highlight_ranges \<Rightarrow> bool" where
  "nonOverlapping rs = sorted_wrt (\<lambda>a b. snd a < fst b) rs"

definition ascendingStarts :: "highlight_ranges \<Rightarrow> bool" where
  "ascendingStarts rs = sorted (map fst rs)"

definition isolatedLetter :: "jstring \<Rightarrow> range \<Rightarrow> bool" where
  "isolatedLetter normalizedItem c =
     (fst c = snd c \<and> fst c \<noteq> 0
      \<and> \<not> isValidWordBoundary (charAt normalizedItem (fst c - 1)))"

text \<open>
  The invariant of both matchers: the chunks found so far are in order, do not overlap,
  and all lie below the position \<open>k\<close> (they start at or before \<open>k\<close> and end before it).
\<close>

definition chunksBelow :: "int \<Rightarrow> highlight_ranges \<Rightarrow> bool" where
  "chunksBelow k rs =
     (nonOverlapping rs \<and> ascendingStarts rs \<and> list_all (\<lambda>c. fst c \<le> k \<and> snd c < k) rs)"

section \<open>Unfolding rules for concrete runs\<close>

declare bits.simps [simp del]

lemma floor_rat_numeral [simp]: "\<lfloor>(numeral a :: rat) / numeral b\<rfloor> = numeral a div numeral b"
  using floor_divide_of_int_eq[of "numeral a" "numeral b", where ?'a = rat] by simp

lemmas double_eval = double_def ilog2_def scale_def round_half_even_def bits.simps Let_def
  dadd_def dsub_def dmul_def

lemmas str_defs = strlen_def charAt_def startsWith_def indexOf_def searchString_def slice_def

lemmas norm_defs = normalizeText_def fragment_def ascii_lower_def canonical_order_def ccc_def
  replace_diacritics_def diacritic_def replace_l_def replace_n_def trim_def isWhiteSpace_def

lemmas score_defs = scoreConsecutiveLetters_def chunkPenalty_def validWordBoundaries_def
  isValidWordBoundary_def

declare aggressive_loop.simps [simp del] extend_chunk.simps [simp del]

lemmas smart_defs = smartFuzzyMatch_def smart_loop.simps smart_pass_def take_chunk_def
  extend_chunk.simps

lemmas aggressive_defs = aggressiveFuzzyMatch_def aggressive_loop.simps

lemmas tier_defs = prefixTiersApply_def exactContainsApplies_def containsApplies_def

section \<open>Facts about the rounding to doubles\<close>

lemma bits_pos: "1 \<le> n \<Longrightarrow> 1 \<le> bits n"
  by (subst bits.simps) simp

lemma bits_lower: "1 \<le> n \<Longrightarrow> 2 ^ (bits n - 1) \<le> n"
proof (induction n rule: bits.induct)
  case (1 n)
  show ?case
  proof (cases "1 \<le> n div 2")
    case True
    have b: "bits n = Suc (bits (n div 2))" using "1.prems" by (subst bits.simps) simp
    have "1 \<le> bits (n div 2)" using True by (rule bits_pos)
    then have "bits n - 1 = Suc (bits (n div 2) - 1)" using b by simp
    then have "(2::int) ^ (bits n - 1) = 2 * 2 ^ (bits (n div 2) - 1)" by simp
    also have "\<dots> \<le> 2 * (n div 2)" using "1.IH" True "1.prems" by simp
    also have "\<dots> \<le> n" by simp
    finally show ?thesis .
  next
    case False
    then have "n div 2 \<le> 0" by simp
    then have "bits (n div 2) = 0" by (subst bits.simps) simp
    then have "bits n = 1" using "1.prems" by (subst bits.simps) simp
    then show ?thesis using "1.prems" by simp
  qed
qed

lemma bits_upper: "0 \<le> n \<Longrightarrow> n < 2 ^ bits n"
proof (induction n rule: bits.induct)
  case (1 n)
  show ?case
  proof (cases "n \<le> 0")
    case True
    then show ?thesis using "1.prems" by simp
  next
    case False
    then have b: "bits n = Suc (bits (n div 2))" by (subst bits.simps) simp
    have "n div 2 < 2 ^ bits (n div 2)" using "1.IH" False "1.prems" by simp
    then have "n < 2 * 2 ^ bits (n div 2)" by linarith
    then show ?thesis using b by simp
  qed
qed

lemma scale_powi: "scale x e = x * 2 powi e"
  by (simp add: scale_def power_int_def field_simps power_inverse)

lemma ilog2_le:
  assumes "0 < x"
  shows "2 powi ilog2 x \<le> x"
proof (cases "1 \<le> x")
  case True
  then have f: "1 \<le> \<lfloor>x\<rfloor>" by simp
  have "ilog2 x = int (bits \<lfloor>x\<rfloor> - 1)" using True bits_pos[OF f] by (simp add: ilog2_def)
  then have "(2::rat) powi ilog2 x = of_int (2 ^ (bits \<lfloor>x\<rfloor> - 1))" by (simp add: power_int_def)
  also have "\<dots> \<le> of_int \<lfloor>x\<rfloor>" by (rule iffD2[OF of_int_le_iff bits_lower[OF f]])
  also have "\<dots> \<le> x" by simp
  finally show ?thesis .
next
  case False
  define y where "y = 1 / x"
  define n where "n = (if y \<le> of_int \<lfloor>y\<rfloor> then \<lfloor>y\<rfloor> - 1 else \<lfloor>y\<rfloor>)"
  have y1: "1 < y" using False assms by (simp add: y_def)
  have n0: "0 \<le> n" using y1 by (auto simp: n_def)
  have yn: "y \<le> of_int (n + 1)"
  proof (cases "y \<le> of_int \<lfloor>y\<rfloor>")
    case True
    then show ?thesis by (simp add: n_def)
  next
    case False
    then show ?thesis using floor_correct[of y] by (simp add: n_def)
  qed
  have "n + 1 \<le> 2 ^ bits n" using bits_upper[OF n0] by simp
  then have "(of_int (n + 1) :: rat) \<le> of_int (2 ^ bits n)" by (subst of_int_le_iff)
  then have y2: "y \<le> 2 ^ bits n" using yn by simp
  have "ilog2 x = - int (bits n)" using False by (simp add: ilog2_def y_def n_def Let_def)
  then have "(2::rat) powi ilog2 x = 1 / 2 ^ bits n" by (simp add: power_int_def field_simps power_inverse)
  also have "\<dots> \<le> 1 / y" using y2 y1 by (simp add: frac_le)
  also have "\<dots> = x" by (simp add: y_def)
  finally show ?thesis .
qed

lemma round_half_even_ge: "of_int N \<le> y \<Longrightarrow> N \<le> round_half_even y"
proof -
  assume "of_int N \<le> y"
  then have "N \<le> \<lfloor>y\<rfloor>" by (simp add: le_floor_iff)
  then show ?thesis by (simp add: round_half_even_def Let_def)
qed

text \<open>The mantissa of the rounded value has at least 53 bits.\<close>

lemma mantissa_lower:
  assumes "0 < a"
  shows "2 ^ 52 \<le> round_half_even (scale a (- (ilog2 a - 52)))"
proof (rule round_half_even_ge)
  have "(2::rat) powi 52 = 2 powi ilog2 a * 2 powi (- (ilog2 a - 52))"
    by (simp add: power_int_add[symmetric])
  also have "\<dots> \<le> a * 2 powi (- (ilog2 a - 52))"
    using ilog2_le[OF assms] by (simp add: mult_right_mono)
  finally show "of_int (2 ^ 52) \<le> scale a (- (ilog2 a - 52))"
    by (simp add: scale_powi)
qed

lemma double_0 [simp]: "double 0 = 0"
  by (simp add: double_def)

lemma double_pos:
  assumes "0 < x"
  shows "0 < double x"
proof -
  have "(0::int) < 2 ^ 52" by simp
  also have "\<dots> \<le> round_half_even (scale x (- (ilog2 x - 52)))"
    using mantissa_lower[OF assms] .
  finally have "0 < round_half_even (scale x (- (ilog2 x - 52)))" .
  then show ?thesis using assms by (simp add: double_def Let_def scale_powi)
qed

lemma double_minus: "double (- x) = - double x"
  by (simp add: double_def Let_def)

lemma double_sign: "(double x \<le> 0) = (x \<le> 0)"
proof (cases "0 < x")
  case True
  then show ?thesis using double_pos[OF True] by simp
next
  case False
  show ?thesis
  proof (cases "x = 0")
    case True
    then show ?thesis by simp
  next
    case nz: False
    then have "0 < - x" using False by simp
    from double_pos[OF this] show ?thesis using False by (simp add: double_minus)
  qed
qed

lemma double_nonneg: "0 \<le> x \<Longrightarrow> 0 \<le> double x"
  using double_pos[of x] by (cases "x = 0") auto

text \<open>Rounding does not go below a power of two that the exact value has reached.\<close>

lemma double_ge_power:
  assumes "2 ^ k \<le> x"
  shows "2 ^ k \<le> double x"
proof -
  have "(0::rat) < 2 ^ k" by simp
  then have pos: "0 < x" using assms by linarith
  define e where "e = ilog2 x - 52"
  define m where "m = round_half_even (scale x (- e))"
  have d: "double x = of_int m * 2 powi e"
    using pos by (simp add: double_def Let_def e_def m_def scale_powi)
  have m52: "2 ^ 52 \<le> m" using mantissa_lower[OF pos] by (simp add: m_def e_def)
  show ?thesis
  proof (cases "int k \<le> e")
    case True
    have "(2::rat) powi int k \<le> 2 powi e" using True by (intro power_int_increasing) auto
    then have "(2::rat) ^ k \<le> 2 powi e" by simp
    also have "\<dots> \<le> of_int m * 2 powi e"
    proof -
      have "1 \<le> m" using m52 by simp
      then have "(1::rat) \<le> of_int m" by simp
      then show ?thesis by (simp add: mult_right_mono)
    qed
    finally show ?thesis using d by simp
  next
    case False
    define N :: int where "N = 2 ^ nat (int k - e)"
    have Npow: "(of_int N :: rat) = 2 powi (int k - e)"
      using False by (simp add: N_def power_int_def)
    have "(2::rat) powi (int k + (- e)) = 2 powi int k * 2 powi (- e)"
      by (rule power_int_add) simp
    then have "(of_int N :: rat) = 2 powi int k * 2 powi (- e)"
      unfolding Npow by simp
    also have "\<dots> \<le> x * 2 powi (- e)" using assms by (simp add: mult_right_mono)
    finally have "of_int N \<le> scale x (- e)" by (simp add: scale_powi)
    then have "N \<le> m" unfolding m_def by (rule round_half_even_ge)
    then have "(of_int N :: rat) * 2 powi e \<le> of_int m * 2 powi e"
      by (simp add: mult_right_mono)
    moreover have "(2::rat) powi (int k - e + e) = 2 powi (int k - e) * 2 powi e"
      by (rule power_int_add) simp
    then have "(of_int N :: rat) * 2 powi e = 2 ^ k"
      unfolding Npow by simp
    ultimately show ?thesis using d by simp
  qed
qed

lemma double_ge_1: "1 \<le> x \<Longrightarrow> 1 \<le> double x"
  using double_ge_power[of 0 x] by simp

lemma double_ge_2: "2 \<le> x \<Longrightarrow> 2 \<le> double x"
  using double_ge_power[of 1 x] by simp

text \<open>
  The doubles of the literals 0.1, 0.2, 0.4, 0.8, 1.6, 0.9, 0.5 and 1.5 of the source,
  with the fractions in lowest terms.
\<close>

lemma double_literals:
  "double (1 / 10) = 3602879701896397 / 36028797018963968"
  "double (1 / 5) = 3602879701896397 / 18014398509481984"
  "double (2 / 5) = 3602879701896397 / 9007199254740992"
  "double (4 / 5) = 3602879701896397 / 4503599627370496"
  "double (8 / 5) = 3602879701896397 / 2251799813685248"
  "double (9 / 10) = 8106479329266893 / 9007199254740992"
  "double (1 / 2) = 1 / 2"
  "double (3 / 2) = 3 / 2"
  by (simp_all add: double_eval)

text \<open>
  The multi-word score for seven words, as the doubles give it: 2.9000000000000004,
  which is not the double of the literal 2.9.
\<close>

lemma multi_word_score_seven:
  "dadd (double (15 / 10)) (dmul 7 (double (2 / 10))) = 1632554864921805 / 562949953421312
   \<and> double (29 / 10) = 6530219459687219 / 2251799813685248"
  by (simp add: double_eval)

section \<open>The consecutive-run scorer\<close>

lemma scoreChunks_fold:
  "scoreChunks normalizedItem indices s =
     foldl (\<lambda>score r. dadd score (chunkPenalty normalizedItem r)) s indices"
  by (induction indices arbitrary: s) simp_all

lemma chunkPenalty_spec: "chunkPenalty normalizedItem = specChunkPenalty isSpace normalizedItem"
  by (rule ext) (simp add: chunkPenalty_def specChunkPenalty_def isSpace_def Let_def)

text \<open>
  Claim C2, as the code has it: the scorer returns the chunk list unchanged and the score
  2 plus, for each chunk, 0.2 if the chunk starts at index 0 or after a space and ends at
  the last index or before a space, else 0.4 if it starts at index 0 or after a space,
  else 0.8 if it is at least 3 long, else 1.6. The only boundary character of the scorer
  is the space. The addends are doubles and are added one after the other, in the order
  of the chunks, each sum rounded to a double.
\<close>

theorem C2_scorer_space_only:
  "scoreConsecutiveLetters indices normalizedItem =
     (specScore isSpace indices normalizedItem, indices)"
  by (simp add: scoreConsecutiveLetters_def specScore_def scoreChunks_fold chunkPenalty_spec)

text \<open>
  Claim C2 as stated, with the boundary set of the classifier, fails: the smart matcher
  scores the chunks \<open>[2,2]\<close> and \<open>[5,5]\<close> of \<open>a-bc d\<close> for the query \<open>bd\<close>; the chunk
  after the hyphen costs 1.6 in the code, which returns \<open>(2 + 1.6) + 0.2\<close>, the double
  3.8000000000000003, where the formula with the boundary set gives 0.4 for that chunk
  and \<open>(2 + 0.4) + 0.2\<close>, the double 2.6, in all.
\<close>

theorem C2_boundary_set_counterexample:
  "smartFuzzyMatch (ascii ''a-bc d'') (ascii ''bd'')
     = Some (Some (scoreConsecutiveLetters [(2, 2), (5, 5)] (ascii ''a-bc d'')))
   \<and> fst (scoreConsecutiveLetters [(2, 2), (5, 5)] (ascii ''a-bc d''))
       = 8556839292003943 / 2251799813685248
   \<and> specScore isValidWordBoundary [(2, 2), (5, 5)] (ascii ''a-bc d'') = double (26 / 10)"
  by (simp add: smart_defs ascii_def str_defs score_defs specScore_def specChunkPenalty_def
      double_eval)

section \<open>Concrete scenario of the specification\<close>

text \<open>
  Claim C6: searching the collection \<open>["Hello World"]\<close> with the strategy
  \<open>aggressive\<close> for \<open>hwl\<close> returns the one result with item \<open>Hello World\<close>, score
  4.4 (the double of that literal) and matches \<open>[[[0,0],[6,6],[9,9]]]\<close>.
\<close>

theorem C6_hello_world_aggressive:
  "createFuzzySearch fragment strings [ascii ''Hello World'']
     \<lparr>strategy = Some Aggressive, getText = None, key = None\<rparr> (ascii ''hwl'')
   = Some [\<lparr>item = ascii ''Hello World'', score = double (44 / 10),
             matches = [Some [(0, 0), (6, 6), (9, 9)]]\<rparr>]"
  by (simp add: createFuzzySearch_def preprocess_def strings_def matchesFuzzily_def
      aggressive_defs MAX_SAFE_INTEGER_def sort_by_def ascii_def
      norm_defs str_defs score_defs double_eval)

text \<open>The two other concrete scenarios of the specification, as checks of the model.\<close>

lemma scenario_A:
  "createFuzzySearch fragment strings (map ascii [''apple'', ''banana'', ''cherry'', ''grape''])
     \<lparr>strategy = None, getText = None, key = None\<rparr> (ascii ''ban'')
   = Some [\<lparr>item = ascii ''banana'', score = 5 / 10, matches = [Some [(0, 2)]]\<rparr>]"
proof -
  have n: "normalizeText fragment (ascii ''apple'') = ascii ''apple''"
    "normalizeText fragment (ascii ''banana'') = ascii ''banana''"
    "normalizeText fragment (ascii ''cherry'') = ascii ''cherry''"
    "normalizeText fragment (ascii ''grape'') = ascii ''grape''"
    "normalizeText fragment (ascii ''ban'') = ascii ''ban''"
    by (simp_all add: norm_defs ascii_def)
  have m: "matchesFuzzily (ascii ''apple'') (ascii ''apple'') (set (split_space (ascii ''apple'')))
             (ascii ''ban'') (ascii ''ban'') (split_space (ascii ''ban'')) Smart = Some None"
    "matchesFuzzily (ascii ''banana'') (ascii ''banana'') (set (split_space (ascii ''banana'')))
             (ascii ''ban'') (ascii ''ban'') (split_space (ascii ''ban'')) Smart
       = Some (Some (5 / 10, [(0, 2)]))"
    "matchesFuzzily (ascii ''cherry'') (ascii ''cherry'') (set (split_space (ascii ''cherry'')))
             (ascii ''ban'') (ascii ''ban'') (split_space (ascii ''ban'')) Smart = Some None"
    "matchesFuzzily (ascii ''grape'') (ascii ''grape'') (set (split_space (ascii ''grape'')))
             (ascii ''ban'') (ascii ''ban'') (split_space (ascii ''ban'')) Smart = Some None"
    by (simp_all add: matchesFuzzily_def smart_defs ascii_def str_defs score_defs double_eval)
  have "ascii ''ban'' \<noteq> []" by (simp add: ascii_def)
  then show ?thesis
    by (simp add: createFuzzySearch_def preprocess_def strings_def n m MAX_SAFE_INTEGER_def
        sort_by_def Let_def)
qed

lemma scenario_B:
  "fuzzyMatch fragment (ascii ''Hello World'') (ascii ''wor'')
   = Some (Some \<lparr>item = ascii ''Hello World'', score = 1, matches = [Some [(6, 8)]]\<rparr>)"
proof -
  have n: "normalizeText fragment (ascii ''Hello World'') = ascii ''hello world''"
    "normalizeText fragment (ascii ''wor'') = ascii ''wor''"
    by (simp_all add: norm_defs ascii_def)
  show ?thesis unfolding fuzzyMatch_def n
    by (simp add: matchesFuzzily_def ascii_def str_defs score_defs double_eval)
qed

section \<open>The text normalizer\<close>

lemma trim_trim: "trim (trim s) = trim s"
proof -
  define y where "y = dropWhile isWhiteSpace s"
  define z where "z = dropWhile isWhiteSpace (rev y)"
  have z_idem: "dropWhile isWhiteSpace z = z" by (simp add: z_def)
  have "dropWhile isWhiteSpace (rev z) = rev z"
  proof (cases "z = []")
    case True then show ?thesis by simp
  next
    case False
    then have ry: "rev y \<noteq> []" by (auto simp: z_def)
    then have yne: "y \<noteq> []" by simp
    have "last z = last (rev y)" using False unfolding z_def
      by (metis takeWhile_dropWhile_id last_appendR)
    also have "\<dots> = hd y" using yne by (simp add: last_rev)
    finally have lz: "last z = hd y" .
    have "\<not> isWhiteSpace (hd y)" using yne unfolding y_def by (rule hd_dropWhile)
    then have "\<not> isWhiteSpace (hd (rev z))" using False lz by (simp add: hd_rev)
    then show ?thesis using False by (cases "rev z") auto
  qed
  then show ?thesis by (simp add: trim_def y_def[symmetric] z_def[symmetric] z_idem)
qed

lemma set_trim: "set (trim s) \<subseteq> set s"
proof
  fix c assume "c \<in> set (trim s)"
  then have "c \<in> set (dropWhile isWhiteSpace (rev (dropWhile isWhiteSpace s)))"
    by (simp add: trim_def)
  then have "c \<in> set (rev (dropWhile isWhiteSpace s))" by (rule set_dropWhileD)
  then have "c \<in> set (dropWhile isWhiteSpace s)" by simp
  then show "c \<in> set s" by (rule set_dropWhileD)
qed

lemma normalized_units:
  "c \<in> set (normalizeText U s) \<Longrightarrow> \<not> diacritic c \<and> c \<noteq> 322 \<and> c \<noteq> 241"
proof -
  assume "c \<in> set (normalizeText U s)"
  then have "c \<in> set (replace_n (replace_l (replace_diacritics (normalizeNFD U (toLowerCase U s)))))"
    using set_trim unfolding normalizeText_def by blast
  then show ?thesis
    by (auto simp: replace_n_def replace_l_def replace_diacritics_def diacritic_def split: if_splits)
qed

lemma replace_fixed:
  assumes "\<And>c. c \<in> set t \<Longrightarrow> \<not> diacritic c \<and> c \<noteq> 322 \<and> c \<noteq> 241"
  shows "replace_n (replace_l (replace_diacritics t)) = t"
proof -
  have "replace_diacritics t = t" unfolding replace_diacritics_def using assms by (simp add: filter_id_conv)
  moreover have "replace_l t = t" unfolding replace_l_def using assms by (simp add: map_idI)
  moreover have "replace_n t = t" unfolding replace_n_def using assms by (simp add: map_idI)
  ultimately show ?thesis by simp
qed

text \<open>
  Claim C8, as the code has it: for every string whose normalized form the platform's
  lower-casing and canonical decomposition leave unchanged, normalizing twice gives the
  same string as normalizing once. The three replacements and the trim of the source
  never undo each other.
\<close>

theorem C8_normalize_idempotent_on_fixed:
  assumes "toLowerCase U (normalizeText U s) = normalizeText U s"
    and "normalizeNFD U (normalizeText U s) = normalizeText U s"
  shows "normalizeText U (normalizeText U s) = normalizeText U s"
proof -
  have "normalizeText U (normalizeText U s)
        = trim (replace_n (replace_l (replace_diacritics (normalizeText U s))))"
    using assms by (simp add: normalizeText_def)
  also have "\<dots> = trim (normalizeText U s)"
    using normalized_units by (simp add: replace_fixed)
  also have "\<dots> = normalizeText U s"
    by (simp add: normalizeText_def trim_trim)
  finally show ?thesis .
qed

theorem C8_normalize_idempotent_witness:
  "toLowerCase fragment (normalizeText fragment (ascii '' Hello World ''))
     = normalizeText fragment (ascii '' Hello World '')
   \<and> normalizeNFD fragment (normalizeText fragment (ascii '' Hello World ''))
     = normalizeText fragment (ascii '' Hello World '')
   \<and> normalizeText fragment (normalizeText fragment (ascii '' Hello World ''))
     = normalizeText fragment (ascii '' Hello World '')
   \<and> normalizeText fragment (ascii '' Hello World '') = ascii ''hello world''"
proof -
  have n: "normalizeText fragment (ascii '' Hello World '') = ascii ''hello world''"
    by (simp add: norm_defs ascii_def)
  have l: "toLowerCase fragment (ascii ''hello world'') = ascii ''hello world''"
    by (simp add: norm_defs ascii_def)
  have d: "normalizeNFD fragment (ascii ''hello world'') = ascii ''hello world''"
    by (simp add: norm_defs ascii_def)
  show ?thesis
    using C8_normalize_idempotent_on_fixed [of fragment "ascii '' Hello World ''"] n l d
    by simp
qed

text \<open>
  Claim C8 as stated fails. The combining grapheme joiner U+034F lies in the range
  U+0300 to U+036F that the source removes, and it keeps canonical decomposition from
  reordering the marks on either side of it. In \<open>a\<close>, shadda, joiner, fatha the first
  pass removes the joiner after the decomposition; the second pass then finds shadda
  (class 33) before fatha (class 30) and swaps them.
\<close>

theorem C8_normalize_twice_counterexample:
  "normalizeText fragment (normalizeText fragment [97, 1617, 847, 1614])
     \<noteq> normalizeText fragment [97, 1617, 847, 1614]"
  by (simp add: norm_defs)

section \<open>Facts about the string search\<close>

lemma find_from_found:
  "find_from pat t k = r \<Longrightarrow> r \<noteq> - 1 \<Longrightarrow>
     int k \<le> r \<and> r + int (length pat) \<le> int k + int (length t)
     \<and> take (length pat) (drop (nat (r - int k)) t) = pat"
proof (induction t arbitrary: k)
  case Nil
  then show ?case by (auto split: if_splits)
next
  case (Cons c cs)
  show ?case
  proof (cases "startsWith (c # cs) pat")
    case True
    then have r: "r = int k" using Cons.prems by simp
    have "length (take (length pat) (c # cs)) = length pat"
      using True by (simp add: startsWith_def)
    then have "length pat \<le> length (c # cs)" by simp
    then show ?thesis using True r by (simp add: startsWith_def)
  next
    case False
    then have "find_from pat cs (Suc k) = r" using Cons.prems by simp
    from Cons.IH[OF this Cons.prems(2)]
    have ih: "int (Suc k) \<le> r" "r + int (length pat) \<le> int (Suc k) + int (length cs)"
      "take (length pat) (drop (nat (r - int (Suc k))) cs) = pat" by auto
    have "nat (r - int k) = Suc (nat (r - int (Suc k)))" using ih(1) by simp
    then show ?thesis using ih by simp
  qed
qed

lemma indexOf_found:
  assumes "indexOf s pat pos = r" "r \<noteq> - 1"
  shows "min (max pos 0) (strlen s) \<le> r \<and> r + strlen pat \<le> strlen s
         \<and> take (length pat) (drop (nat r) s) = pat"
proof -
  define start where "start = nat (min (max pos 0) (strlen s))"
  have f: "find_from pat (drop start s) start = r"
    using assms(1) by (simp add: indexOf_def start_def Let_def)
  from find_from_found[OF f assms(2)]
  have a: "int start \<le> r" "r + int (length pat) \<le> int start + int (length (drop start s))"
    "take (length pat) (drop (nat (r - int start)) (drop start s)) = pat" by auto
  have le: "start \<le> length s" by (simp add: start_def strlen_def)
  have b: "r + strlen pat \<le> strlen s" using a(2) le by (simp add: strlen_def)
  have "nat (r - int start) + start = nat r" using a(1) by simp
  then have c: "take (length pat) (drop (nat r) s) = pat" using a(3) by simp
  have "min (max pos 0) (strlen s) \<le> r" using a(1) by (simp add: start_def strlen_def)
  then show ?thesis using b c by simp
qed

lemma indexOf_searchString:
  assumes "indexOf s (searchString c) pos = r" "r \<noteq> - 1"
  shows "pos \<le> r \<and> 0 \<le> r \<and> r < strlen s \<and> (c \<noteq> None \<longrightarrow> charAt s r = c)"
proof -
  from indexOf_found[OF assms]
  have a0: "min (max pos 0) (strlen s) \<le> r" "r + strlen (searchString c) \<le> strlen s"
    and a4: "take (length (searchString c)) (drop (nat r) s) = searchString c" by auto
  have "0 < strlen (searchString c)" by (simp add: strlen_def searchString_def split: option.splits)
  then have lt: "r < strlen s" using a0(2) by simp
  have a: "pos \<le> r" "0 \<le> r" using a0(1) lt by auto
  have "charAt s r = c" if cn: "c \<noteq> None"
  proof -
    obtain u where u: "c = Some u" using cn by (cases c) auto
    then have "take 1 (drop (nat r) s) = [u]" using a4 by (simp add: searchString_def)
    moreover have "nat r < length s" using lt a(2) by (simp add: strlen_def)
    ultimately have "s ! nat r = u"
      by (metis append_take_drop_id nth_via_drop hd_drop_conv_nth list.sel(1) take_Suc_conv_app_nth One_nat_def take_hd_drop hd_take zero_less_one)
    then show ?thesis using u lt a(2) by (simp add: charAt_def)
  qed
  then show ?thesis using a lt by simp
qed

section \<open>One pass of the smart matcher\<close>

lemma extend_chunk_bounds:
  "extend_chunk normalizedItem normalizedQuery cl qi = (cl', qi') \<Longrightarrow>
     cl \<le> cl' \<and> qi' - qi = cl' - cl \<and> (cl \<le> strlen normalizedItem \<longrightarrow> cl' \<le> strlen normalizedItem)"
proof (induction normalizedItem normalizedQuery cl qi rule: extend_chunk.induct)
  case (1 normalizedItem normalizedQuery cl qi)
  show ?case
  proof (cases "cl < strlen normalizedItem
                \<and> charAt normalizedItem cl = charAt normalizedQuery qi")
    case True
    then have "extend_chunk normalizedItem normalizedQuery (cl + 1) (qi + 1) = (cl', qi')"
      using "1.prems" by (subst (asm) extend_chunk.simps) simp
    from "1.IH"[OF _ _ this] True show ?thesis by auto
  next
    case False
    then have "(cl', qi') = (cl, qi)"
      using "1.prems" by (subst (asm) extend_chunk.simps) (auto split: if_splits)
    then show ?thesis by simp
  qed
qed

lemma extend_chunk_query:
  "extend_chunk normalizedItem normalizedQuery cl qi = (cl', qi') \<Longrightarrow>
     0 \<le> cl \<Longrightarrow> qi \<le> strlen normalizedQuery \<Longrightarrow> qi' \<le> strlen normalizedQuery"
proof (induction normalizedItem normalizedQuery cl qi rule: extend_chunk.induct)
  case (1 normalizedItem normalizedQuery cl qi)
  show ?case
  proof (cases "cl < strlen normalizedItem
                \<and> charAt normalizedItem cl = charAt normalizedQuery qi")
    case True
    then have rec: "extend_chunk normalizedItem normalizedQuery (cl + 1) (qi + 1) = (cl', qi')"
      using "1.prems"(1) by (subst (asm) extend_chunk.simps) simp
    have "charAt normalizedItem cl \<noteq> None" using True "1.prems"(2) by (simp add: charAt_def)
    then have "charAt normalizedQuery qi \<noteq> None" using True by simp
    then have "qi < strlen normalizedQuery" by (simp add: charAt_def split: if_splits)
    with "1.IH"[OF _ _ rec] True "1.prems" show ?thesis by auto
  next
    case False
    then have "(cl', qi') = (cl, qi)"
      using "1.prems"(1) by (subst (asm) extend_chunk.simps) (auto split: if_splits)
    then show ?thesis using "1.prems" by simp
  qed
qed

lemma extend_chunk_first:
  assumes "extend_chunk normalizedItem normalizedQuery cl qi = (cl', qi')"
    and "cl < strlen normalizedItem"
    and "charAt normalizedItem cl = charAt normalizedQuery qi"
  shows "cl < cl'"
proof -
  have "extend_chunk normalizedItem normalizedQuery (cl + 1) (qi + 1) = (cl', qi')"
    using assms by (subst (asm) extend_chunk.simps) simp
  from extend_chunk_bounds[OF this] show ?thesis by simp
qed

lemma slice_empty: "slice s a a = []"
  by (simp add: slice_def Let_def)

text \<open>
  The three ways through one pass, for a query index within the query: the search finds
  nothing; the occurrence found is rejected; or it is accepted and a chunk is taken.
\<close>

lemma smart_pass_cases [consumes 2, case_names Break Reject Accept]:
  assumes "0 \<le> qi" "qi \<le> strlen normalizedQuery"
  obtains
    (Break) "smart_pass normalizedItem normalizedQuery qi cl inds = Break"
  | (Reject) "smart_pass normalizedItem normalizedQuery qi cl inds = Continue qi (cl + 1) inds"
      "qi < strlen normalizedQuery" "cl + 1 < strlen normalizedItem"
  | (Accept) idx cl0 qi1 where
      "idx = indexOf normalizedItem (searchString (charAt normalizedQuery qi)) (cl + 1)"
      "idx \<noteq> - 1" "cl + 1 \<le> idx" "0 \<le> idx" "idx < strlen normalizedItem"
      "idx = 0 \<or> isValidWordBoundary (charAt normalizedItem (idx - 1))
       \<or> slice normalizedItem idx
             (idx + min 3 (min (strlen normalizedQuery - qi) (strlen normalizedItem - idx)))
           = slice normalizedQuery qi
               (qi + min 3 (min (strlen normalizedQuery - qi) (strlen normalizedItem - idx)))"
      "extend_chunk normalizedItem normalizedQuery idx qi = (cl0, qi1)"
      "idx \<le> cl0" "cl0 \<le> strlen normalizedItem" "qi1 - qi = cl0 - idx"
      "qi1 \<le> strlen normalizedQuery" "qi < strlen normalizedQuery \<longrightarrow> idx < cl0"
      "smart_pass normalizedItem normalizedQuery qi cl inds =
         (if qi1 = strlen normalizedQuery
          then Return (scoreConsecutiveLetters (inds @ [(idx, cl0 - 1)]) normalizedItem)
          else Continue qi1 (cl0 - 1) (inds @ [(idx, cl0 - 1)]))"
proof -
  define idx where "idx = indexOf normalizedItem (searchString (charAt normalizedQuery qi)) (cl + 1)"
  show thesis
  proof (cases "idx = - 1")
    case True
    then have "smart_pass normalizedItem normalizedQuery qi cl inds = Break"
      by (simp add: smart_pass_def idx_def Let_def)
    then show thesis by (rule Break)
  next
    case False
    from indexOf_searchString[OF idx_def[symmetric] False]
    have b: "cl + 1 \<le> idx" "0 \<le> idx" "idx < strlen normalizedItem"
      and ch: "charAt normalizedQuery qi \<noteq> None \<longrightarrow>
               charAt normalizedItem idx = charAt normalizedQuery qi" by auto
    obtain cl0 qi1 where ex: "extend_chunk normalizedItem normalizedQuery idx qi = (cl0, qi1)"
      by (cases "extend_chunk normalizedItem normalizedQuery idx qi") auto
    from extend_chunk_bounds[OF ex] b
    have e1: "idx \<le> cl0" "qi1 - qi = cl0 - idx" "cl0 \<le> strlen normalizedItem" by auto
    from extend_chunk_query[OF ex b(2) assms(2)] have e2: "qi1 \<le> strlen normalizedQuery" .
    have e3: "qi < strlen normalizedQuery \<longrightarrow> idx < cl0"
    proof
      assume lt: "qi < strlen normalizedQuery"
      then have "charAt normalizedQuery qi \<noteq> None" using assms(1) by (simp add: charAt_def)
      with ch have "charAt normalizedItem idx = charAt normalizedQuery qi" by simp
      from extend_chunk_first[OF ex b(3) this] show "idx < cl0" .
    qed
    have tk: "take_chunk normalizedItem normalizedQuery qi idx inds =
                (if qi1 = strlen normalizedQuery
                 then Return (scoreConsecutiveLetters (inds @ [(idx, cl0 - 1)]) normalizedItem)
                 else Continue qi1 (cl0 - 1) (inds @ [(idx, cl0 - 1)]))"
      by (simp add: take_chunk_def ex Let_def)
    let ?m = "min 3 (min (strlen normalizedQuery - qi) (strlen normalizedItem - idx))"
    let ?look = "slice normalizedItem idx (idx + ?m) = slice normalizedQuery qi (qi + ?m)"
    show thesis
    proof (cases "idx = 0 \<or> isValidWordBoundary (charAt normalizedItem (idx - 1)) \<or> ?look")
      case acc: True
      then have "smart_pass normalizedItem normalizedQuery qi cl inds =
                   take_chunk normalizedItem normalizedQuery qi idx inds"
        using False by (auto simp: smart_pass_def idx_def[symmetric] Let_def)
      then have sp: "smart_pass normalizedItem normalizedQuery qi cl inds =
                (if qi1 = strlen normalizedQuery
                 then Return (scoreConsecutiveLetters (inds @ [(idx, cl0 - 1)]) normalizedItem)
                 else Continue qi1 (cl0 - 1) (inds @ [(idx, cl0 - 1)]))"
        using tk by simp
      from idx_def False b(1) b(2) b(3) acc ex e1(1) e1(3) e1(2) e2 e3 sp
      show thesis by (rule Accept)
    next
      case no: False
      then have sp: "smart_pass normalizedItem normalizedQuery qi cl inds = Continue qi (cl + 1) inds"
        using False by (auto simp: smart_pass_def idx_def[symmetric] Let_def)
      have "qi \<noteq> strlen normalizedQuery"
      proof
        assume q: "qi = strlen normalizedQuery"
        then have "?m = 0" using b(3) by simp
        then have ?look by (simp add: slice_empty)
        then show False using no by simp
      qed
      then have "qi < strlen normalizedQuery" using assms(2) by simp
      moreover have "cl + 1 < strlen normalizedItem" using b by simp
      ultimately show thesis using sp by (intro Reject)
    qed
  qed
qed

lemma smart_pass_Continue:
  assumes "0 \<le> qi" "qi \<le> strlen normalizedQuery"
    and c: "smart_pass normalizedItem normalizedQuery qi cl inds = Continue qi' cl' inds'"
  shows "0 \<le> qi' \<and> qi' < strlen normalizedQuery \<and> cl < cl' \<and> cl' < strlen normalizedItem"
  using assms(1,2)
proof (cases rule: smart_pass_cases[where normalizedItem = normalizedItem and cl = cl and inds = inds])
  case Break
  then show ?thesis using c by simp
next
  case Reject
  then show ?thesis using c assms(1) by simp
next
  case (Accept idx cl0 qi1)
  have ne: "qi1 \<noteq> strlen normalizedQuery" and eq: "qi' = qi1" "cl' = cl0 - 1"
    using c Accept(13) by (auto split: if_splits)
  have "qi < strlen normalizedQuery"
  proof (rule ccontr)
    assume "\<not> qi < strlen normalizedQuery"
    then have "qi = strlen normalizedQuery" using assms(2) by simp
    then show False using Accept(8,10,11) ne by simp
  qed
  then have "idx < cl0" using Accept(12) by simp
  then show ?thesis using Accept(3,8,9,10,11) ne eq assms(1) by simp
qed

lemma smart_passes_loop:
  "smart_passes n normalizedItem normalizedQuery qi cl inds = Some r \<Longrightarrow>
     smart_loop normalizedItem normalizedQuery qi cl inds = Some r"
proof (induction n arbitrary: qi cl inds)
  case 0
  then show ?case by simp
next
  case (Suc n)
  show ?case
  proof (cases "smart_pass normalizedItem normalizedQuery qi cl inds")
    case Break
    then show ?thesis using Suc.prems by (subst smart_loop.simps) simp
  next
    case (Return x)
    then show ?thesis using Suc.prems by (subst smart_loop.simps) simp
  next
    case (Continue qi' cl' inds')
    then have "smart_passes n normalizedItem normalizedQuery qi' cl' inds' = Some r"
      using Suc.prems by simp
    from Suc.IH[OF this] show ?thesis using Continue by (subst smart_loop.simps) simp
  qed
qed

lemma smart_passes_total:
  "0 \<le> qi \<Longrightarrow> qi \<le> strlen normalizedQuery \<Longrightarrow> strlen normalizedItem - cl \<le> int n \<Longrightarrow> 0 < n \<Longrightarrow>
     \<exists>r. smart_passes n normalizedItem normalizedQuery qi cl inds = Some r"
proof (induction n arbitrary: qi cl inds)
  case 0
  then show ?case by simp
next
  case (Suc n)
  show ?case
  proof (cases "smart_pass normalizedItem normalizedQuery qi cl inds")
    case Break
    then show ?thesis by simp
  next
    case (Return x)
    then show ?thesis by simp
  next
    case (Continue qi' cl' inds')
    from smart_pass_Continue[OF Suc.prems(1,2) Continue]
    have c: "0 \<le> qi'" "qi' < strlen normalizedQuery" "cl < cl'" "cl' < strlen normalizedItem"
      by auto
    have "strlen normalizedItem - cl' \<le> int n" "0 < n" using c Suc.prems(3) by auto
    with Suc.IH[of qi' cl' inds'] c
    obtain r where "smart_passes n normalizedItem normalizedQuery qi' cl' inds' = Some r"
      by auto
    then show ?thesis using Continue by simp
  qed
qed

lemma smartFuzzyMatch_passes:
  "\<exists>r. smartFuzzyMatch normalizedItem normalizedQuery = Some r
       \<and> smart_passes (length normalizedItem + 2) normalizedItem normalizedQuery 0 (- 2) [] = Some r"
proof -
  have "strlen normalizedItem - (- 2) \<le> int (length normalizedItem + 2)"
    by (simp add: strlen_def)
  from smart_passes_total[OF _ _ this, of 0 normalizedQuery "[]"]
  obtain r where r: "smart_passes (length normalizedItem + 2) normalizedItem normalizedQuery 0 (- 2) [] = Some r"
    by (auto simp: strlen_def)
  from smart_passes_loop[OF r] r show ?thesis by (auto simp: smartFuzzyMatch_def)
qed

section \<open>Termination of the smart matcher\<close>

text \<open>
  Claim C10: the smart chunk matcher returns on every pair of strings. The loop is left
  after at most \<open>length + 2\<close> passes, where \<open>length\<close> is the length of the item: the
  loop cut off after that many passes gives the result of the matcher. The reason is the
  second part: in a pass that goes round again, \<open>chunkLastIdx\<close>, and with it the start
  of the next search, has moved strictly forward and stays below the length of the item.
  The query index is within the query at the start and stays so, which the second part
  takes as given and hands on.
\<close>

theorem C10_smart_terminates:
  "(\<exists>r. smartFuzzyMatch normalizedItem normalizedQuery = Some r
        \<and> smart_passes (length normalizedItem + 2) normalizedItem normalizedQuery 0 (- 2) []
            = Some r)
   \<and> (0 \<le> qi \<and> qi \<le> strlen normalizedQuery
        \<and> smart_pass normalizedItem normalizedQuery qi cl inds = Continue qi' cl' inds'
      \<longrightarrow> cl < cl' \<and> cl' < strlen normalizedItem \<and> 0 \<le> qi' \<and> qi' \<le> strlen normalizedQuery)"
  using smartFuzzyMatch_passes[of normalizedItem normalizedQuery]
    smart_pass_Continue[of qi normalizedQuery normalizedItem cl inds qi' cl' inds']
  by auto

theorem C10_smart_terminates_witness:
  "smartFuzzyMatch (ascii ''xaa'') (ascii ''ab'') = Some None
   \<and> smart_passes (length (ascii ''xaa'') + 2) (ascii ''xaa'') (ascii ''ab'') 0 (- 2) [] = Some None
   \<and> (0::int) \<le> 0 \<and> 0 \<le> strlen (ascii ''ab'')
   \<and> smart_pass (ascii ''xaa'') (ascii ''ab'') 0 (- 2) [] = Continue 0 (- 1) []
   \<and> (- 2::int) < - 1 \<and> - 1 < strlen (ascii ''xaa'')"
proof -
  have p: "smart_pass (ascii ''xaa'') (ascii ''ab'') 0 (- 2) [] = Continue 0 (- 1) []"
    by (simp add: smart_pass_def ascii_def str_defs score_defs)
  have q: "(0::int) \<le> 0" "0 \<le> strlen (ascii ''ab'')" by (simp_all add: strlen_def)
  note t = C10_smart_terminates[of "ascii ''xaa''" "ascii ''ab''" 0 "- 2" "[]" 0 "- 1" "[]"]
  from t obtain r where r: "smartFuzzyMatch (ascii ''xaa'') (ascii ''ab'') = Some r"
    "smart_passes (length (ascii ''xaa'') + 2) (ascii ''xaa'') (ascii ''ab'') 0 (- 2) [] = Some r"
    by blast
  have "smart_passes (Suc (Suc (Suc (Suc (Suc 0))))) (ascii ''xaa'') (ascii ''ab'') 0 (- 2) []
          = Some None"
    by (simp add: smart_pass_def take_chunk_def extend_chunk.simps ascii_def str_defs score_defs)
  moreover have "length (ascii ''xaa'') + 2 = Suc (Suc (Suc (Suc (Suc 0))))"
    by (simp add: ascii_def)
  ultimately have "r = None" using r(2) by simp
  moreover have "(- 2::int) < - 1 \<and> - 1 < strlen (ascii ''xaa'')"
    using t p q by blast
  ultimately show ?thesis using r p q by simp
qed

lemma smart_passes_bound_attained:
  "smart_passes (Suc (Suc (Suc (Suc 0)))) (ascii ''xaa'') (ascii ''ab'') 0 (- 2) [] = None
   \<and> smart_passes (Suc (Suc (Suc (Suc (Suc 0))))) (ascii ''xaa'') (ascii ''ab'') 0 (- 2) []
       = Some None"
  by (simp add: smart_pass_def take_chunk_def extend_chunk.simps ascii_def str_defs score_defs)

section \<open>Sorting and the collection search\<close>

lemma set_insert_by: "set (insert_by cmp x ys) = insert x (set ys)"
  by (induction ys) auto

lemma sorted_insert_by:
  fixes f :: "'a \<Rightarrow> 'b::linorder" and cmp :: "'a \<Rightarrow> 'a \<Rightarrow> 'c::{zero,ord}"
  assumes "\<And>x y. (cmp x y \<le> 0) = (f x \<le> f y)"
  shows "sorted (map f ys) \<Longrightarrow> sorted (map f (insert_by cmp x ys))"
proof (induction ys)
  case Nil
  then show ?case by simp
next
  case (Cons y ys)
  show ?case
  proof (cases "cmp x y \<le> 0")
    case True
    then have "f x \<le> f y" using assms by simp
    then show ?thesis using True Cons.prems by auto
  next
    case False
    then have "f y \<le> f x" using assms by (meson linear)
    then show ?thesis using False Cons by (auto simp: set_insert_by)
  qed
qed

lemma sorted_sort_by:
  fixes f :: "'a \<Rightarrow> 'b::linorder" and cmp :: "'a \<Rightarrow> 'a \<Rightarrow> 'c::{zero,ord}"
  assumes "\<And>x y. (cmp x y \<le> 0) = (f x \<le> f y)"
  shows "sorted (map f (sort_by cmp xs))"
  unfolding sort_by_def
  by (induction xs) (simp_all add: sorted_insert_by[OF assms])

lemma matchesFuzzily_returns:
  "\<exists>m. matchesFuzzily itm normalizedItem itemWords query normalizedQuery queryWords strat = Some m"
  using smartFuzzyMatch_passes[of normalizedItem normalizedQuery]
  by (auto simp: matchesFuzzily_def Let_def)

lemma texts_loop_returns:
  "\<exists>b. texts_loop query normalizedQuery queryWords strat texts bestScore ms = Some b"
proof (induction texts arbitrary: bestScore ms)
  case Nil
  then show ?case by simp
next
  case (Cons t texts)
  obtain itm normalizedItem itemWords where t: "t = (itm, normalizedItem, itemWords)"
    by (cases t) auto
  obtain m where "matchesFuzzily itm normalizedItem itemWords query normalizedQuery queryWords strat = Some m"
    using matchesFuzzily_returns by blast
  then show ?case using Cons.IH t by (cases m) auto
qed

lemma elements_loop_returns:
  "\<exists>rs. elements_loop query normalizedQuery queryWords strat preprocessed results = Some rs"
proof (induction preprocessed arbitrary: results)
  case Nil
  then show ?case by simp
next
  case (Cons p preprocessed)
  obtain element texts where p: "p = (element, texts)" by (cases p) auto
  obtain b ms where "texts_loop query normalizedQuery queryWords strat texts MAX_SAFE_INTEGER [] = Some (b, ms)"
    using texts_loop_returns by (metis surj_pair)
  then show ?case using Cons.IH p by simp
qed

text \<open>
  Claim C7: for every collection, every choice of options and every query, the search
  returns a list of results, and the scores in it never decrease from one element to
  the next. The comparator is a rounded difference of two doubles; its sign is the sign
  of the exact difference.
\<close>

theorem C7_results_sorted:
  "\<exists>results. createFuzzySearch U R collection options query = Some results
       \<and> sorted (map score results)"
proof (cases "normalizeText U query = []")
  case True
  then show ?thesis by (simp add: createFuzzySearch_def)
next
  case False
  define strat where "strat = (case strategy options of Some s \<Rightarrow> s | None \<Rightarrow> Smart)"
  obtain rs where rs: "elements_loop query (normalizeText U query)
        (split_space (normalizeText U query)) strat (map (preprocess U R options) collection) []
      = Some rs"
    using elements_loop_returns by blast
  have "sorted (map score (sort_by sortByScore rs))"
    by (rule sorted_sort_by) (simp add: sortByScore_def dsub_def double_sign)
  then show ?thesis using False rs by (simp add: createFuzzySearch_def strat_def Let_def)
qed

section \<open>The orchestrator: empty query and multi-word tier\<close>

text \<open>
  Claim C9: for every text, \<open>fuzzyMatch(text, "")\<close> returns a result whose matches
  are \<open>[[[0, -1]]]\<close>, and its score is 0.5 whenever the text and its normalized form
  are both non-empty. The platform enters through two facts: lower-casing and
  decomposing the empty string give the empty string.
\<close>

theorem C9_empty_query:
  assumes "toLowerCase U [] = []" and "normalizeNFD U [] = []"
  shows "\<exists>r. fuzzyMatch U str [] = Some (Some r)
             \<and> matches r = [Some [(0, - 1)]]
             \<and> (normalizeText U str \<noteq> [] \<and> str \<noteq> [] \<longrightarrow> score r = 5 / 10)"
proof -
  have q: "normalizeText U [] = []"
    using assms by (simp add: normalizeText_def replace_diacritics_def replace_l_def
        replace_n_def trim_def)
  consider "str = []" | "str \<noteq> []" "normalizeText U str = []"
    | "str \<noteq> []" "normalizeText U str \<noteq> []" by blast
  then show ?thesis
  proof cases
    case 1
    then show ?thesis
      by (simp add: fuzzyMatch_def q matchesFuzzily_def Let_def strlen_def)
  next
    case 2
    then show ?thesis
      by (simp add: fuzzyMatch_def q matchesFuzzily_def Let_def strlen_def)
  next
    case 3
    then show ?thesis
      by (simp add: fuzzyMatch_def q matchesFuzzily_def Let_def strlen_def startsWith_def
          double_literals)
  qed
qed

theorem C9_empty_query_witness:
  "toLowerCase fragment [] = [] \<and> normalizeNFD fragment [] = []
   \<and> normalizeText fragment (ascii ''Hello World'') \<noteq> [] \<and> ascii ''Hello World'' \<noteq> []
   \<and> fuzzyMatch fragment (ascii ''Hello World'') []
       = Some (Some \<lparr>item = ascii ''Hello World'', score = 5 / 10,
                      matches = [Some [(0, - 1)]]\<rparr>)"
proof -
  have h: "toLowerCase fragment [] = []" "normalizeNFD fragment [] = []"
    by (simp_all add: norm_defs)
  have n: "normalizeText fragment (ascii ''Hello World'') \<noteq> []" "ascii ''Hello World'' \<noteq> []"
    by (simp_all add: norm_defs ascii_def)
  from C9_empty_query[OF h, of "ascii ''Hello World''"] n
  obtain r where r: "fuzzyMatch fragment (ascii ''Hello World'') [] = Some (Some r)"
    "matches r = [Some [(0, - 1)]]" "score r = 5 / 10" by auto
  have "item r = ascii ''Hello World''"
    using r(1) by (auto simp: fuzzyMatch_def Let_def split: option.splits)
  then have "r = \<lparr>item = ascii ''Hello World'', score = 5 / 10, matches = [Some [(0, - 1)]]\<rparr>"
    using r(2,3) by simp
  then show ?thesis using h n r(1) by simp
qed

text \<open>
  Claim C5: when none of the tiers before it applies and the query has \<open>n \<ge> 2\<close> words
  that are all in the word set of the item, the multi-word tier returns with the score
  \<open>1.5 + 0.2 n\<close>, the double that this expression has in the arithmetic of doubles
  (the product rounded, then the sum). The score is a function of the number of words
  alone, so the order of the words in the item and in the query plays no part.
\<close>

theorem C5_multi_word_score:
  assumes "\<not> prefixTiersApply itm normalizedItem query normalizedQuery"
    and "\<not> exactContainsApplies itm query"
    and "\<not> containsApplies normalizedItem normalizedQuery"
    and "length queryWords = n" and "2 \<le> n"
    and "\<forall>w \<in> set queryWords. w \<in> itemWords"
  shows "\<exists>ranges. matchesFuzzily itm normalizedItem itemWords query normalizedQuery queryWords strat
           = Some (Some (dadd (double (15 / 10)) (dmul (double (2 / 10)) (of_nat n)), ranges))"
proof -
  have t1: "itm \<noteq> query" "normalizedItem \<noteq> normalizedQuery"
    "\<not> startsWith normalizedItem normalizedQuery"
    using assms(1) by (auto simp: prefixTiersApply_def)
  have t4: "\<not> (indexOf itm query 0 > - 1
               \<and> isValidWordBoundary (charAt itm (indexOf itm query 0 - 1)))"
    using assms(2) by (simp add: exactContainsApplies_def)
  have t5: "\<not> (indexOf normalizedItem normalizedQuery 0 > - 1
               \<and> isValidWordBoundary
                    (charAt normalizedItem (indexOf normalizedItem normalizedQuery 0 - 1)))"
    using assms(3) by (simp add: containsApplies_def)
  have mw: "length queryWords > 1 \<and> list_all (\<lambda>w. w \<in> itemWords) queryWords"
    using assms(4,5,6) by (simp add: list_all_iff)
  have "dmul (of_nat (length queryWords)) (double (2 / 10)) = dmul (double (2 / 10)) (of_nat n)"
    using assms(4) by (simp add: dmul_def mult.commute)
  then show ?thesis
    unfolding matchesFuzzily_def Let_def if_not_P[OF t1(1)] if_not_P[OF t1(2)] if_not_P[OF t1(3)]
      if_not_P[OF t4] if_not_P[OF t5] if_P[OF mw]
    by simp
qed

theorem C5_multi_word_score_witness:
  "\<not> prefixTiersApply (ascii ''Hello World'') (normalizeText fragment (ascii ''Hello World''))
        (ascii ''World Hello'') (normalizeText fragment (ascii ''World Hello''))
   \<and> \<not> exactContainsApplies (ascii ''Hello World'') (ascii ''World Hello'')
   \<and> \<not> containsApplies (normalizeText fragment (ascii ''Hello World''))
          (normalizeText fragment (ascii ''World Hello''))
   \<and> length (split_space (normalizeText fragment (ascii ''World Hello''))) = 2 \<and> (2::nat) \<le> 2
   \<and> list_all (\<lambda>w. w \<in> set (split_space (normalizeText fragment (ascii ''Hello World''))))
          (split_space (normalizeText fragment (ascii ''World Hello'')))
   \<and> (\<exists>ranges. matchesFuzzily (ascii ''Hello World'')
          (normalizeText fragment (ascii ''Hello World''))
          (set (split_space (normalizeText fragment (ascii ''Hello World''))))
          (ascii ''World Hello'') (normalizeText fragment (ascii ''World Hello''))
          (split_space (normalizeText fragment (ascii ''World Hello''))) Smart
        = Some (Some (dadd (double (15 / 10)) (dmul (double (2 / 10)) (of_nat 2)), ranges)))"
proof -
  have n1: "normalizeText fragment (ascii ''Hello World'') = ascii ''hello world''"
    by (simp add: norm_defs ascii_def)
  have n2: "normalizeText fragment (ascii ''World Hello'') = ascii ''world hello''"
    by (simp add: norm_defs ascii_def)
  have a: "\<not> prefixTiersApply (ascii ''Hello World'') (normalizeText fragment (ascii ''Hello World''))
        (ascii ''World Hello'') (normalizeText fragment (ascii ''World Hello''))"
    unfolding n1 n2 by (simp add: tier_defs ascii_def str_defs)
  have b: "\<not> exactContainsApplies (ascii ''Hello World'') (ascii ''World Hello'')"
    by (simp add: tier_defs ascii_def str_defs)
  have c: "\<not> containsApplies (normalizeText fragment (ascii ''Hello World''))
          (normalizeText fragment (ascii ''World Hello''))"
    unfolding n1 n2 by (simp add: tier_defs ascii_def str_defs)
  have d: "length (split_space (normalizeText fragment (ascii ''World Hello''))) = 2"
    unfolding n2 by (simp add: ascii_def)
  have e: "\<forall>w \<in> set (split_space (normalizeText fragment (ascii ''World Hello''))).
          w \<in> set (split_space (normalizeText fragment (ascii ''Hello World'')))"
    unfolding n1 n2 by (simp add: ascii_def)
  from C5_multi_word_score[OF a b c d _ e, of Smart] a b c d e show ?thesis
    by (simp add: list_all_iff)
qed

section \<open>Invariants of the smart matcher\<close>

lemma smart_passes_invariant:
  assumes run: "smart_passes n normalizedItem normalizedQuery qi cl inds = Some (Some r)"
    and init: "I qi cl inds" "0 \<le> qi" "qi \<le> strlen normalizedQuery"
    and cont: "\<And>qi cl inds qi' cl' inds'. I qi cl inds \<Longrightarrow> 0 \<le> qi \<Longrightarrow> qi \<le> strlen normalizedQuery \<Longrightarrow>
        smart_pass normalizedItem normalizedQuery qi cl inds = Continue qi' cl' inds' \<Longrightarrow>
        I qi' cl' inds'"
    and ret: "\<And>qi cl inds r. I qi cl inds \<Longrightarrow> 0 \<le> qi \<Longrightarrow> qi \<le> strlen normalizedQuery \<Longrightarrow>
        smart_pass normalizedItem normalizedQuery qi cl inds = Return r \<Longrightarrow> Q r"
  shows "Q r"
  using run init
proof (induction n arbitrary: qi cl inds)
  case 0
  then show ?case by simp
next
  case (Suc n)
  show ?case
  proof (cases "smart_pass normalizedItem normalizedQuery qi cl inds")
    case Break
    then show ?thesis using Suc.prems(1) by simp
  next
    case (Return x)
    then have "x = r" using Suc.prems(1) by simp
    then show ?thesis using ret[OF Suc.prems(2,3,4)] Return by simp
  next
    case (Continue qi' cl' inds')
    then have run': "smart_passes n normalizedItem normalizedQuery qi' cl' inds' = Some (Some r)"
      using Suc.prems(1) by simp
    from smart_pass_Continue[OF Suc.prems(3,4) Continue]
    have "0 \<le> qi'" "qi' \<le> strlen normalizedQuery" by auto
    with Suc.IH[OF run' cont[OF Suc.prems(2,3,4) Continue]] show ?thesis by simp
  qed
qed

lemma smartFuzzyMatch_invariant:
  assumes "smartFuzzyMatch normalizedItem normalizedQuery = Some (Some r)"
    and "I 0 (- 2) []"
    and "\<And>qi cl inds qi' cl' inds'. I qi cl inds \<Longrightarrow> 0 \<le> qi \<Longrightarrow> qi \<le> strlen normalizedQuery \<Longrightarrow>
        smart_pass normalizedItem normalizedQuery qi cl inds = Continue qi' cl' inds' \<Longrightarrow>
        I qi' cl' inds'"
    and "\<And>qi cl inds r. I qi cl inds \<Longrightarrow> 0 \<le> qi \<Longrightarrow> qi \<le> strlen normalizedQuery \<Longrightarrow>
        smart_pass normalizedItem normalizedQuery qi cl inds = Return r \<Longrightarrow> Q r"
  shows "Q r"
proof -
  from smartFuzzyMatch_passes[of normalizedItem normalizedQuery] assms(1)
  have "smart_passes (length normalizedItem + 2) normalizedItem normalizedQuery 0 (- 2) []
          = Some (Some r)" by auto
  from smart_passes_invariant[where I = I and Q = Q, OF this assms(2) _ _ assms(3,4)]
  show ?thesis by (simp add: strlen_def)
qed

lemma chunksBelow_Nil: "chunksBelow k []"
  by (simp add: chunksBelow_def nonOverlapping_def ascendingStarts_def)

lemma chunksBelow_mono: "chunksBelow k rs \<Longrightarrow> k \<le> k' \<Longrightarrow> chunksBelow k' rs"
  by (auto simp: chunksBelow_def list_all_iff)

lemma chunksBelow_append:
  assumes "chunksBelow k rs" "k \<le> a" "a \<le> k'" "b < k'"
  shows "chunksBelow k' (rs @ [(a, b)])"
proof -
  have el: "\<forall>c \<in> set rs. fst c \<le> k \<and> snd c < k"
    using assms(1) by (simp add: chunksBelow_def list_all_iff)
  have "nonOverlapping (rs @ [(a, b)])"
    using assms(1,2) el by (auto simp: chunksBelow_def nonOverlapping_def sorted_wrt_append)
  moreover have "ascendingStarts (rs @ [(a, b)])"
    using assms(1,2) el by (auto simp: chunksBelow_def ascendingStarts_def sorted_append)
  moreover have "list_all (\<lambda>c. fst c \<le> k' \<and> snd c < k') (rs @ [(a, b)])"
    using el assms(2,3,4) by (auto simp: list_all_iff)
  ultimately show ?thesis by (simp add: chunksBelow_def)
qed

lemma smartFuzzyMatch_chunks:
  assumes "smartFuzzyMatch normalizedItem normalizedQuery = Some (Some r)"
  shows "\<exists>k chunks. r = scoreConsecutiveLetters chunks normalizedItem \<and> chunksBelow k chunks"
proof (rule smartFuzzyMatch_invariant[where I = "\<lambda>qi cl inds. chunksBelow (cl + 1) inds", OF assms])
  show "chunksBelow (- 2 + 1) []" by (rule chunksBelow_Nil)
next
  fix qi cl inds qi' cl' inds'
  assume I: "chunksBelow (cl + 1) inds" and q: "0 \<le> qi" "qi \<le> strlen normalizedQuery"
    and c: "smart_pass normalizedItem normalizedQuery qi cl inds = Continue qi' cl' inds'"
  from q show "chunksBelow (cl' + 1) inds'"
  proof (cases rule: smart_pass_cases[where normalizedItem = normalizedItem and cl = cl and inds = inds])
    case Break
    then show ?thesis using c by simp
  next
    case Reject
    then show ?thesis using c chunksBelow_mono[OF I, of "cl + 1 + 1"] by simp
  next
    case (Accept idx cl0 qi1)
    from chunksBelow_append[OF I Accept(3), of cl0 "cl0 - 1"] Accept(8)
    have "chunksBelow cl0 (inds @ [(idx, cl0 - 1)])" by simp
    then show ?thesis using c Accept(13) by (auto split: if_splits)
  qed
next
  fix qi cl inds r
  assume I: "chunksBelow (cl + 1) inds" and q: "0 \<le> qi" "qi \<le> strlen normalizedQuery"
    and c: "smart_pass normalizedItem normalizedQuery qi cl inds = Return r"
  from q show "\<exists>k chunks. r = scoreConsecutiveLetters chunks normalizedItem \<and> chunksBelow k chunks"
  proof (cases rule: smart_pass_cases[where normalizedItem = normalizedItem and cl = cl and inds = inds])
    case Break
    then show ?thesis using c by simp
  next
    case Reject
    then show ?thesis using c by simp
  next
    case (Accept idx cl0 qi1)
    from chunksBelow_append[OF I Accept(3), of cl0 "cl0 - 1"] Accept(8)
    have "chunksBelow cl0 (inds @ [(idx, cl0 - 1)])" by simp
    then show ?thesis using c Accept(13) by (auto split: if_splits)
  qed
qed

section \<open>Invariant of the aggressive matcher, and the scores of both\<close>

lemma aggressive_loop_chunks:
  assumes "aggressive_loop normalizedItem normalizedQuery itemIdx qi inds cf cl = Some r"
    and "0 \<le> itemIdx"
    and "(cf < 0 \<and> cl < - 1 \<and> inds = []) \<or> (0 \<le> cf \<and> cf \<le> cl \<and> cl < itemIdx \<and> chunksBelow cf inds)"
  shows "\<exists>k chunks. r = scoreConsecutiveLetters chunks normalizedItem \<and> chunksBelow k chunks"
  using assms
proof (induction normalizedItem normalizedQuery itemIdx qi inds cf cl rule: aggressive_loop.induct)
  case (1 normalizedItem normalizedQuery itemIdx qi inds cf cl)
  note run = "1.prems"(1) and pos = "1.prems"(2) and inv = "1.prems"(3)
  have lt: "itemIdx < strlen normalizedItem"
    using run by (subst (asm) aggressive_loop.simps) (simp split: if_splits)
  show ?case
  proof (cases "charAt normalizedItem itemIdx = charAt normalizedQuery qi")
    case False
    then have run': "aggressive_loop normalizedItem normalizedQuery (itemIdx + 1) qi inds cf cl = Some r"
      using run lt by (subst (asm) aggressive_loop.simps) simp
    have "(cf < 0 \<and> cl < - 1 \<and> inds = [])
          \<or> (0 \<le> cf \<and> cf \<le> cl \<and> cl < itemIdx + 1 \<and> chunksBelow cf inds)"
      using inv by auto
    with "1.IH"(2)[OF lt False run'] pos show ?thesis by simp
  next
    case True
    define inds1 where "inds1 = (if itemIdx \<noteq> cl + 1 \<and> cf \<ge> 0 then inds @ [(cf, cl)] else inds)"
    define cf1 where "cf1 = (if itemIdx \<noteq> cl + 1 then itemIdx else cf)"
    have cf1: "0 \<le> cf1" "cf1 \<le> itemIdx" using inv pos by (auto simp: cf1_def)
    have below: "chunksBelow cf1 inds1"
    proof (cases "itemIdx \<noteq> cl + 1")
      case new: True
      show ?thesis
      proof (cases "cf \<ge> 0")
        case True
        then have "chunksBelow cf inds" "cf \<le> itemIdx" "cl < itemIdx" using inv by auto
        from chunksBelow_append[OF this(1) order_refl this(2,3)]
        show ?thesis using new True by (simp add: inds1_def cf1_def)
      next
        case False
        then show ?thesis using new inv by (simp add: inds1_def cf1_def chunksBelow_Nil)
      qed
    next
      case False
      then show ?thesis using inv pos by (auto simp: inds1_def cf1_def)
    qed
    show ?thesis
    proof (cases "qi + 1 = strlen normalizedQuery")
      case fin: True
      then have "r = scoreConsecutiveLetters (inds1 @ [(cf1, itemIdx)]) normalizedItem"
        using run lt True
        by (subst (asm) aggressive_loop.simps) (simp add: Let_def inds1_def cf1_def)
      moreover have "chunksBelow (itemIdx + 1) (inds1 @ [(cf1, itemIdx)])"
        using chunksBelow_append[OF below order_refl, of "itemIdx + 1" itemIdx] cf1 by simp
      ultimately show ?thesis by blast
    next
      case rest: False
      then have run': "aggressive_loop normalizedItem normalizedQuery (itemIdx + 1) (qi + 1)
                         inds1 cf1 itemIdx = Some r"
        using run lt True
        by (subst (asm) aggressive_loop.simps) (simp add: Let_def inds1_def cf1_def)
      have "(cf1 < 0 \<and> itemIdx < - 1 \<and> inds1 = [])
            \<or> (0 \<le> cf1 \<and> cf1 \<le> itemIdx \<and> itemIdx < itemIdx + 1 \<and> chunksBelow cf1 inds1)"
        using cf1 below by simp
      with "1.IH"(1)[OF lt True inds1_def cf1_def refl refl rest run'] pos
      show ?thesis by simp
    qed
  qed
qed

lemma aggressiveFuzzyMatch_chunks:
  assumes "aggressiveFuzzyMatch normalizedItem normalizedQuery = Some r"
  shows "\<exists>k chunks. r = scoreConsecutiveLetters chunks normalizedItem \<and> chunksBelow k chunks"
  using assms aggressive_loop_chunks[of normalizedItem normalizedQuery 0 0 "[]" "- 1" "- 2" r]
  by (simp add: aggressiveFuzzyMatch_def)

lemma chunkPenalty_pos: "0 < chunkPenalty normalizedItem c"
  by (simp add: chunkPenalty_def Let_def double_pos)

lemma scoreChunks_lower: "2 \<le> s \<Longrightarrow> 2 \<le> scoreChunks normalizedItem indices s"
proof (induction indices arbitrary: s)
  case Nil
  then show ?case by simp
next
  case (Cons c indices)
  have "2 \<le> s + chunkPenalty normalizedItem c"
    using Cons.prems chunkPenalty_pos[of normalizedItem c] by simp
  then have "2 \<le> dadd s (chunkPenalty normalizedItem c)"
    unfolding dadd_def by (rule double_ge_2)
  then show ?case using Cons.IH by simp
qed

lemma scoreConsecutiveLetters_lower: "2 \<le> fst (scoreConsecutiveLetters indices normalizedItem)"
  by (simp add: scoreConsecutiveLetters_def scoreChunks_lower)

lemma fuzzy_result:
  assumes "r = scoreConsecutiveLetters chunks normalizedItem" "chunksBelow k chunks"
  shows "2 \<le> fst r \<and> nonOverlapping (snd r) \<and> ascendingStarts (snd r)"
  using assms scoreConsecutiveLetters_lower[of chunks normalizedItem]
  by (simp add: chunksBelow_def scoreConsecutiveLetters_def)

section \<open>The orchestrator: order of the ranges and the exact-case contains tier\<close>

lemma sorted_word_ranges: "ascendingStarts (sort_by sortRangeTuple rs)"
  unfolding ascendingStarts_def
  by (rule sorted_sort_by) (simp add: sortRangeTuple_def)

lemma single_range: "ascendingStarts [c] \<and> nonOverlapping [c]"
  by (simp add: ascendingStarts_def nonOverlapping_def)

lemma matchesFuzzily_fuzzy:
  assumes "matchesFuzzily itm normalizedItem itemWords query normalizedQuery queryWords strat
             = Some (Some r)"
    and "\<not> prefixTiersApply itm normalizedItem query normalizedQuery"
    and "\<not> exactContainsApplies itm query"
    and "\<not> containsApplies normalizedItem normalizedQuery"
    and "\<not> multiWordApplies queryWords itemWords"
    and "\<not> indexOf normalizedItem normalizedQuery 0 > - 1"
  shows "\<exists>k chunks. r = scoreConsecutiveLetters chunks normalizedItem \<and> chunksBelow k chunks"
proof (cases strat)
  case Off
  then show ?thesis using assms
    by (auto simp: matchesFuzzily_def tier_defs multiWordApplies_def Let_def split: if_splits)
next
  case Smart
  then have "smartFuzzyMatch normalizedItem normalizedQuery = Some (Some r)"
    using assms
    by (auto simp: matchesFuzzily_def tier_defs multiWordApplies_def Let_def split: if_splits)
  then show ?thesis by (rule smartFuzzyMatch_chunks)
next
  case Aggressive
  then have "aggressiveFuzzyMatch normalizedItem normalizedQuery = Some r"
    using assms
    by (auto simp: matchesFuzzily_def tier_defs multiWordApplies_def Let_def split: if_splits)
  then show ?thesis by (rule aggressiveFuzzyMatch_chunks)
qed

text \<open>
  Claim C4, as the code has it: in every match result the ranges are in ascending order
  of their start index, and they are pairwise non-overlapping unless the result is that
  of the multi-word tier.
\<close>

theorem C4_ranges_ascending:
  assumes "matchesFuzzily itm normalizedItem itemWords query normalizedQuery queryWords strat
             = Some (Some r)"
  shows "ascendingStarts (snd r)
         \<and> (nonOverlapping (snd r)
            \<or> (\<not> prefixTiersApply itm normalizedItem query normalizedQuery
                \<and> \<not> exactContainsApplies itm query
                \<and> \<not> containsApplies normalizedItem normalizedQuery
                \<and> multiWordApplies queryWords itemWords))"
proof (cases "prefixTiersApply itm normalizedItem query normalizedQuery
              \<or> exactContainsApplies itm query \<or> containsApplies normalizedItem normalizedQuery")
  case True
  then have "\<exists>c s. r = (s, [c])"
    using assms by (auto simp: matchesFuzzily_def tier_defs Let_def split: if_splits)
  then show ?thesis using single_range by auto
next
  case early: False
  show ?thesis
  proof (cases "multiWordApplies queryWords itemWords")
    case True
    then have "snd r = sort_by sortRangeTuple (map (wordRange normalizedItem) queryWords)"
      using assms early
      by (auto simp: matchesFuzzily_def tier_defs multiWordApplies_def Let_def split: if_splits)
    then show ?thesis using True early sorted_word_ranges by simp
  next
    case nomw: False
    show ?thesis
    proof (cases "indexOf normalizedItem normalizedQuery 0 > - 1")
      case True
      then have "\<exists>c s. r = (s, [c])"
        using assms early nomw
        by (auto simp: matchesFuzzily_def tier_defs multiWordApplies_def Let_def split: if_splits)
      then show ?thesis using single_range by auto
    next
      case False
      from early have "\<not> prefixTiersApply itm normalizedItem query normalizedQuery"
        "\<not> exactContainsApplies itm query" "\<not> containsApplies normalizedItem normalizedQuery"
        by auto
      from matchesFuzzily_fuzzy[OF assms this nomw False] fuzzy_result
      show ?thesis by blast
    qed
  qed
qed

theorem C4_ranges_ascending_witness:
  "matchesFuzzily (ascii ''ab cd'') (normalizeText fragment (ascii ''ab cd''))
     (set (split_space (normalizeText fragment (ascii ''ab cd'')))) (ascii ''ad'')
     (normalizeText fragment (ascii ''ad'')) (split_space (normalizeText fragment (ascii ''ad'')))
     Smart
   = Some (Some (4, [(0, 0), (4, 4)]))
   \<and> ascendingStarts [(0, 0), (4, 4)] \<and> nonOverlapping [(0, 0), (4, 4)]"
proof -
  have n1: "normalizeText fragment (ascii ''ab cd'') = ascii ''ab cd''"
    and n2: "normalizeText fragment (ascii ''ad'') = ascii ''ad''"
    by (simp_all add: norm_defs ascii_def)
  have m: "matchesFuzzily (ascii ''ab cd'') (normalizeText fragment (ascii ''ab cd''))
     (set (split_space (normalizeText fragment (ascii ''ab cd'')))) (ascii ''ad'')
     (normalizeText fragment (ascii ''ad'')) (split_space (normalizeText fragment (ascii ''ad'')))
     Smart
   = Some (Some (4, [(0, 0), (4, 4)]))"
    unfolding n1 n2
    by (simp add: matchesFuzzily_def smart_defs ascii_def str_defs score_defs double_eval)
  have w: "\<not> multiWordApplies (split_space (normalizeText fragment (ascii ''ad'')))
             (set (split_space (normalizeText fragment (ascii ''ab cd''))))"
    unfolding n1 n2 by (simp add: multiWordApplies_def ascii_def)
  from C4_ranges_ascending[OF m] w m show ?thesis by simp
qed

text \<open>
  Claim C4 as stated fails in the multi-word tier, which looks each query word up with
  a substring search: for the item \<open>abc ab\<close> and the query \<open>ab abc\<close> both words are
  found at index 0 and the result holds the overlapping ranges \<open>[0,1]\<close> and \<open>[0,2]\<close>.
\<close>

theorem C4_overlap_counterexample:
  "fuzzyMatch fragment (ascii ''abc ab'') (ascii ''ab abc'')
     = Some (Some \<lparr>item = ascii ''abc ab'', score = double (19 / 10),
                    matches = [Some [(0, 1), (0, 2)]]\<rparr>)
   \<and> \<not> nonOverlapping [(0, 1), (0, 2)]"
proof -
  have n1: "normalizeText fragment (ascii ''abc ab'') = ascii ''abc ab''"
    and n2: "normalizeText fragment (ascii ''ab abc'') = ascii ''ab abc''"
    by (simp_all add: norm_defs ascii_def)
  have "fuzzyMatch fragment (ascii ''abc ab'') (ascii ''ab abc'')
     = Some (Some \<lparr>item = ascii ''abc ab'', score = double (19 / 10),
                    matches = [Some [(0, 1), (0, 2)]]\<rparr>)"
    unfolding fuzzyMatch_def n1 n2
    by (simp add: matchesFuzzily_def wordRange_def sort_by_def sortRangeTuple_def ascii_def str_defs
        double_eval)
  then show ?thesis by (simp add: nonOverlapping_def)
qed

text \<open>
  Claim C3, as the code has it: when no earlier tier applies and the exact-case search
  finds the query at an index \<open>i \<ge> 1\<close> whose preceding character is a boundary
  character, the exact-case contains tier returns the score 0.9 (the double) and the range
  \<open>[i, i + queryLen - 1]\<close>. A match at index 0 is not taken as boundary-preceded: the
  read at index \<open>-1\<close> is \<open>undefined\<close>, which is not in the boundary set, so no result
  for such a pair has the score 0.9.
\<close>

theorem C3_exact_contains_tier:
  "(\<not> prefixTiersApply itm normalizedItem query normalizedQuery
      \<and> indexOf itm query 0 = i \<and> 1 \<le> i \<and> isValidWordBoundary (charAt itm (i - 1))
    \<longrightarrow> matchesFuzzily itm normalizedItem itemWords query normalizedQuery queryWords strat
          = Some (Some (double (9 / 10), [(i, i + strlen query - 1)])))
   \<and> (indexOf itm query 0 = 0
        \<and> matchesFuzzily itm normalizedItem itemWords query normalizedQuery queryWords strat
            = Some (Some r)
      \<longrightarrow> fst r \<noteq> double (9 / 10))"
proof (intro conjI impI)
  assume "\<not> prefixTiersApply itm normalizedItem query normalizedQuery
      \<and> indexOf itm query 0 = i \<and> 1 \<le> i \<and> isValidWordBoundary (charAt itm (i - 1))"
  then show "matchesFuzzily itm normalizedItem itemWords query normalizedQuery queryWords strat
          = Some (Some (double (9 / 10), [(i, i + strlen query - 1)]))"
    by (auto simp: matchesFuzzily_def tier_defs Let_def)
next
  assume a: "indexOf itm query 0 = 0
        \<and> matchesFuzzily itm normalizedItem itemWords query normalizedQuery queryWords strat
            = Some (Some r)"
  then have z: "indexOf itm query 0 = 0"
    and m: "matchesFuzzily itm normalizedItem itemWords query normalizedQuery queryWords strat
            = Some (Some r)" by auto
  have noex: "\<not> exactContainsApplies itm query"
    using z by (simp add: exactContainsApplies_def charAt_def isValidWordBoundary_def)
  have lt: "double (9 / 10) < 1" and pos: "0 < double (9 / 10)"
    by (simp_all add: double_literals)
  show "fst r \<noteq> double (9 / 10)"
  proof (cases "prefixTiersApply itm normalizedItem query normalizedQuery")
    case True
    then have "fst r \<in> {0, double (1 / 10), double (5 / 10)}"
      using m by (auto simp: matchesFuzzily_def tier_defs Let_def split: if_splits)
    then show ?thesis by (auto simp: double_literals)
  next
    case nopre: False
    show ?thesis
    proof (cases "containsApplies normalizedItem normalizedQuery")
      case True
      then have "fst r = 1"
        using m nopre noex by (auto simp: matchesFuzzily_def tier_defs Let_def split: if_splits)
      then show ?thesis using lt by simp
    next
      case nocon: False
      show ?thesis
      proof (cases "multiWordApplies queryWords itemWords")
        case True
        then have "fst r = dadd (double (15 / 10))
                             (dmul (of_nat (length queryWords)) (double (2 / 10)))"
          using m nopre noex nocon
          by (auto simp: matchesFuzzily_def tier_defs multiWordApplies_def Let_def split: if_splits)
        moreover have "0 \<le> dmul (of_nat (length queryWords)) (double (2 / 10))"
          unfolding dmul_def by (rule double_nonneg) (simp add: double_literals)
        then have "1 \<le> double (15 / 10) + dmul (of_nat (length queryWords)) (double (2 / 10))"
          by (simp add: double_literals)
        then have "1 \<le> dadd (double (15 / 10))
                          (dmul (of_nat (length queryWords)) (double (2 / 10)))"
          unfolding dadd_def by (rule double_ge_1)
        ultimately show ?thesis using lt by simp
      next
        case nomw: False
        show ?thesis
        proof (cases "indexOf normalizedItem normalizedQuery 0 > - 1")
          case True
          then have "fst r = 2"
            using m nopre noex nocon nomw
            by (auto simp: matchesFuzzily_def tier_defs multiWordApplies_def Let_def split: if_splits)
          then show ?thesis using lt by simp
        next
          case False
          from matchesFuzzily_fuzzy[OF m nopre noex nocon nomw False] fuzzy_result
          have "2 \<le> fst r" by blast
          then show ?thesis using lt by simp
        qed
      qed
    qed
  qed
qed

theorem C3_exact_contains_tier_witness:
  "\<not> prefixTiersApply (ascii ''a-b'') (normalizeText fragment (ascii ''a-b''))
        (ascii ''b'') (normalizeText fragment (ascii ''b''))
   \<and> indexOf (ascii ''a-b'') (ascii ''b'') 0 = 2 \<and> (1::int) \<le> 2
   \<and> isValidWordBoundary (charAt (ascii ''a-b'') (2 - 1))
   \<and> matchesFuzzily (ascii ''a-b'') (normalizeText fragment (ascii ''a-b''))
        (set (split_space (normalizeText fragment (ascii ''a-b'')))) (ascii ''b'')
        (normalizeText fragment (ascii ''b'')) (split_space (normalizeText fragment (ascii ''b'')))
        Smart
      = Some (Some (double (9 / 10), [(2, 2 + strlen (ascii ''b'') - 1)]))
   \<and> indexOf (ascii ''Hello World'') (ascii ''He'') 0 = 0
   \<and> matchesFuzzily (ascii ''Hello World'') (normalizeText fragment (ascii ''Hello World''))
        (set (split_space (normalizeText fragment (ascii ''Hello World'')))) (ascii ''He'')
        (normalizeText fragment (ascii ''He'')) (split_space (normalizeText fragment (ascii ''He'')))
        Smart
      = Some (Some (5 / 10, [(0, 1)]))
   \<and> fst (5 / 10 :: rat, [(0, 1)] :: highlight_ranges) \<noteq> double (9 / 10)"
proof -
  have n1: "normalizeText fragment (ascii ''a-b'') = ascii ''a-b''"
    and n2: "normalizeText fragment (ascii ''b'') = ascii ''b''"
    and n3: "normalizeText fragment (ascii ''Hello World'') = ascii ''hello world''"
    and n4: "normalizeText fragment (ascii ''He'') = ascii ''he''"
    by (simp_all add: norm_defs ascii_def)
  have a: "\<not> prefixTiersApply (ascii ''a-b'') (normalizeText fragment (ascii ''a-b''))
        (ascii ''b'') (normalizeText fragment (ascii ''b''))"
    unfolding n1 n2 by (simp add: tier_defs ascii_def str_defs)
  have b: "indexOf (ascii ''a-b'') (ascii ''b'') 0 = 2"
    by (simp add: ascii_def str_defs)
  have c: "isValidWordBoundary (charAt (ascii ''a-b'') (2 - 1))"
    by (simp add: ascii_def str_defs score_defs)
  have d: "indexOf (ascii ''Hello World'') (ascii ''He'') 0 = 0"
    by (simp add: ascii_def str_defs)
  have e: "matchesFuzzily (ascii ''Hello World'') (normalizeText fragment (ascii ''Hello World''))
        (set (split_space (normalizeText fragment (ascii ''Hello World'')))) (ascii ''He'')
        (normalizeText fragment (ascii ''He'')) (split_space (normalizeText fragment (ascii ''He'')))
        Smart
      = Some (Some (5 / 10, [(0, 1)]))"
    unfolding n3 n4 by (simp add: matchesFuzzily_def ascii_def str_defs double_literals)
  note t1 = C3_exact_contains_tier[of "ascii ''a-b''" "normalizeText fragment (ascii ''a-b'')"
      "ascii ''b''" "normalizeText fragment (ascii ''b'')" 2
      "set (split_space (normalizeText fragment (ascii ''a-b'')))"
      "split_space (normalizeText fragment (ascii ''b''))" Smart, THEN conjunct1, rule_format]
  note t2 = C3_exact_contains_tier[of "ascii ''Hello World''"
      "normalizeText fragment (ascii ''Hello World'')"
      "ascii ''He''" "normalizeText fragment (ascii ''He'')" 0
      "set (split_space (normalizeText fragment (ascii ''Hello World'')))"
      "split_space (normalizeText fragment (ascii ''He''))" Smart "(5 / 10, [(0, 1)])",
      THEN conjunct2, rule_format]
  have f: "matchesFuzzily (ascii ''a-b'') (normalizeText fragment (ascii ''a-b''))
        (set (split_space (normalizeText fragment (ascii ''a-b'')))) (ascii ''b'')
        (normalizeText fragment (ascii ''b'')) (split_space (normalizeText fragment (ascii ''b'')))
        Smart
      = Some (Some (double (9 / 10), [(2, 2 + strlen (ascii ''b'') - 1)]))"
    using t1 a b c by simp
  have g: "fst (5 / 10 :: rat, [(0, 1)] :: highlight_ranges) \<noteq> double (9 / 10)"
    using t2 d e by blast
  show ?thesis using a b c d e f g by simp
qed

text \<open>
  Claim C3 as stated fails. The item is meem, shadda, fatha and the query meem, shadda:
  the query is found at index 0 of the item, but canonical decomposition puts fatha
  before shadda in the item, so the normalized item neither equals nor starts with the
  normalized query and no earlier tier applies. The exact-case contains tier does not
  return; the smart matcher does, with the score 4.
\<close>

theorem C3_index_zero_counterexample:
  "indexOf [1605, 1617, 1614] [1605, 1617] 0 = 0
   \<and> \<not> prefixTiersApply [1605, 1617, 1614] (normalizeText fragment [1605, 1617, 1614])
          [1605, 1617] (normalizeText fragment [1605, 1617])
   \<and> fuzzyMatch fragment [1605, 1617, 1614] [1605, 1617]
       = Some (Some \<lparr>item = [1605, 1617, 1614], score = 4, matches = [Some [(0, 0), (2, 2)]]\<rparr>)"
proof -
  have n1: "normalizeText fragment [1605, 1617, 1614] = [1605, 1614, 1617]"
    and n2: "normalizeText fragment [1605, 1617] = [1605, 1617]"
    by (simp_all add: norm_defs)
  have a: "indexOf [1605, 1617, 1614] [1605, 1617] 0 = 0"
    by (simp add: str_defs)
  have b: "\<not> prefixTiersApply [1605, 1617, 1614] (normalizeText fragment [1605, 1617, 1614])
          [1605, 1617] (normalizeText fragment [1605, 1617])"
    unfolding n1 n2 by (simp add: tier_defs str_defs)
  have c: "fuzzyMatch fragment [1605, 1617, 1614] [1605, 1617]
       = Some (Some \<lparr>item = [1605, 1617, 1614], score = 4, matches = [Some [(0, 0), (2, 2)]]\<rparr>)"
    unfolding fuzzyMatch_def n1 n2
    by (simp add: matchesFuzzily_def smart_defs str_defs score_defs double_eval)
  show ?thesis using a b c by simp
qed

section \<open>Isolated letters in the smart matcher\<close>

lemma slice_take:
  assumes "0 \<le> a" "0 \<le> m" "a + m \<le> strlen s"
  shows "slice s a (a + m) = take (nat m) (drop (nat a) s)"
  using assms by (simp add: slice_def Let_def min_def)

lemma slice_second:
  assumes "0 \<le> a" "0 \<le> q" "2 \<le> m" "a + m \<le> strlen s" "q + m \<le> strlen t"
    and eq: "slice s a (a + m) = slice t q (q + m)"
  shows "charAt s (a + 1) = charAt t (q + 1)"
proof -
  have e: "take (nat m) (drop (nat a) s) = take (nat m) (drop (nat q) t)"
    using eq assms(1-5) by (simp add: slice_take)
  have ls: "nat a + 1 < length s" and lt: "nat q + 1 < length t"
    using assms(1-5) by (auto simp: strlen_def)
  have "take (nat m) (drop (nat a) s) ! 1 = s ! (nat a + 1)"
    using assms(3) ls by simp
  moreover have "take (nat m) (drop (nat q) t) ! 1 = t ! (nat q + 1)"
    using assms(3) lt by simp
  ultimately have "s ! (nat a + 1) = t ! (nat q + 1)" using e by simp
  moreover have "nat (a + 1) = nat a + 1" "nat (q + 1) = nat q + 1" using assms(1,2) by auto
  moreover have "a + 1 < strlen s" "q + 1 < strlen t" using assms(3,4,5) by auto
  ultimately show ?thesis using assms(1,2) by (simp add: charAt_def)
qed

lemma extend_chunk_second:
  assumes ex: "extend_chunk normalizedItem normalizedQuery cl qi = (cl', qi')"
    and "cl + 1 < strlen normalizedItem"
    and "charAt normalizedItem cl = charAt normalizedQuery qi"
    and "charAt normalizedItem (cl + 1) = charAt normalizedQuery (qi + 1)"
  shows "cl + 2 \<le> cl'"
proof -
  have "extend_chunk normalizedItem normalizedQuery (cl + 1) (qi + 1) = (cl', qi')"
    using assms(1,2,3) by (subst (asm) extend_chunk.simps) simp
  from extend_chunk_first[OF this assms(2,4)] show ?thesis by simp
qed

text \<open>
  A chunk that was accepted and is an isolated letter, with more of the query to come,
  ends at the last index of the item.
\<close>

lemma isolated_chunk_at_end:
  assumes q: "0 \<le> qi" "qi + 1 < strlen normalizedQuery"
    and idx: "idx = indexOf normalizedItem (searchString (charAt normalizedQuery qi)) (cl + 1)"
      "idx \<noteq> - 1"
    and acc: "idx = 0 \<or> isValidWordBoundary (charAt normalizedItem (idx - 1))
       \<or> slice normalizedItem idx
             (idx + min 3 (min (strlen normalizedQuery - qi) (strlen normalizedItem - idx)))
           = slice normalizedQuery qi
               (qi + min 3 (min (strlen normalizedQuery - qi) (strlen normalizedItem - idx)))"
    and ex: "extend_chunk normalizedItem normalizedQuery idx qi = (cl0, qi1)"
    and iso: "isolatedLetter normalizedItem (idx, cl0 - 1)"
  shows "strlen normalizedItem \<le> cl0"
proof (rule ccontr)
  assume "\<not> strlen normalizedItem \<le> cl0"
  then have lt: "cl0 < strlen normalizedItem" by simp
  have one: "cl0 = idx + 1" and nz: "idx \<noteq> 0"
    and nb: "\<not> isValidWordBoundary (charAt normalizedItem (idx - 1))"
    using iso by (auto simp: isolatedLetter_def)
  from indexOf_searchString[OF idx(1)[symmetric] idx(2)]
  have b: "0 \<le> idx" "idx < strlen normalizedItem"
    and ch: "charAt normalizedQuery qi \<noteq> None \<longrightarrow>
             charAt normalizedItem idx = charAt normalizedQuery qi" by auto
  have "charAt normalizedQuery qi \<noteq> None" using q by (simp add: charAt_def)
  with ch have c0: "charAt normalizedItem idx = charAt normalizedQuery qi" by simp
  let ?m = "min 3 (min (strlen normalizedQuery - qi) (strlen normalizedItem - idx))"
  have m: "2 \<le> ?m" "idx + ?m \<le> strlen normalizedItem" "qi + ?m \<le> strlen normalizedQuery"
    using q lt one by auto
  have look: "slice normalizedItem idx (idx + ?m) = slice normalizedQuery qi (qi + ?m)"
    using acc nz nb by simp
  from slice_second[OF b(1) q(1) m look]
  have c1: "charAt normalizedItem (idx + 1) = charAt normalizedQuery (qi + 1)" .
  have "idx + 1 < strlen normalizedItem" using lt one by simp
  from extend_chunk_second[OF ex this c0 c1] show False using one by simp
qed

text \<open>
  Claim C1, as the code has it: in a result of the smart chunk matcher no chunk other
  than the last one is an isolated letter, that is a single character that is neither
  at index 0 nor preceded by a word-boundary character.
\<close>

theorem C1_isolated_letter_only_last:
  assumes "smartFuzzyMatch normalizedItem normalizedQuery = Some (Some r)"
  shows "\<forall>c \<in> set (butlast (snd r)). \<not> isolatedLetter normalizedItem c"
proof (rule smartFuzzyMatch_invariant[where
      I = "\<lambda>qi cl inds. (\<forall>c \<in> set inds. \<not> isolatedLetter normalizedItem c)
             \<or> (strlen normalizedItem - 1 \<le> cl \<and> qi < strlen normalizedQuery)", OF assms])
  show "(\<forall>c \<in> set []. \<not> isolatedLetter normalizedItem c)
        \<or> (strlen normalizedItem - 1 \<le> - 2 \<and> 0 < strlen normalizedQuery)" by simp
next
  fix qi cl inds qi' cl' inds'
  assume I: "(\<forall>c \<in> set inds. \<not> isolatedLetter normalizedItem c)
             \<or> (strlen normalizedItem - 1 \<le> cl \<and> qi < strlen normalizedQuery)"
    and q: "0 \<le> qi" "qi \<le> strlen normalizedQuery"
    and c: "smart_pass normalizedItem normalizedQuery qi cl inds = Continue qi' cl' inds'"
  from q show "(\<forall>c \<in> set inds'. \<not> isolatedLetter normalizedItem c)
             \<or> (strlen normalizedItem - 1 \<le> cl' \<and> qi' < strlen normalizedQuery)"
  proof (cases rule: smart_pass_cases[where normalizedItem = normalizedItem and cl = cl and inds = inds])
    case Break
    then show ?thesis using c by simp
  next
    case Reject
    then show ?thesis using c I by auto
  next
    case (Accept idx cl0 qi1)
    have old: "\<forall>c \<in> set inds. \<not> isolatedLetter normalizedItem c"
      using I Accept(3,5) by auto
    have ne: "qi1 \<noteq> strlen normalizedQuery" and eq: "qi' = qi1" "cl' = cl0 - 1"
      "inds' = inds @ [(idx, cl0 - 1)]"
      using c Accept(13) by (auto split: if_splits)
    show ?thesis
    proof (cases "isolatedLetter normalizedItem (idx, cl0 - 1)")
      case False
      then show ?thesis using old eq by auto
    next
      case True
      then have one: "cl0 = idx + 1" by (auto simp: isolatedLetter_def)
      then have "qi1 = qi + 1" using Accept(10) by simp
      then have "qi + 1 < strlen normalizedQuery" using ne Accept(11) by simp
      from isolated_chunk_at_end[OF q(1) this Accept(1,2,6,7) True]
      have "strlen normalizedItem \<le> cl0" .
      then show ?thesis using eq ne Accept(11) by simp
    qed
  qed
next
  fix qi cl inds r
  assume I: "(\<forall>c \<in> set inds. \<not> isolatedLetter normalizedItem c)
             \<or> (strlen normalizedItem - 1 \<le> cl \<and> qi < strlen normalizedQuery)"
    and q: "0 \<le> qi" "qi \<le> strlen normalizedQuery"
    and c: "smart_pass normalizedItem normalizedQuery qi cl inds = Return r"
  from q show "\<forall>c \<in> set (butlast (snd r)). \<not> isolatedLetter normalizedItem c"
  proof (cases rule: smart_pass_cases[where normalizedItem = normalizedItem and cl = cl and inds = inds])
    case Break
    then show ?thesis using c by simp
  next
    case Reject
    then show ?thesis using c by simp
  next
    case (Accept idx cl0 qi1)
    have old: "\<forall>c \<in> set inds. \<not> isolatedLetter normalizedItem c"
      using I Accept(3,5) by auto
    have "snd r = inds @ [(idx, cl0 - 1)]"
      using c Accept(13) by (auto simp: scoreConsecutiveLetters_def split: if_splits)
    then show ?thesis using old by simp
  qed
qed

theorem C1_isolated_letter_only_last_witness:
  "smartFuzzyMatch (ascii ''ab-cd efg'') (ascii ''acefg'')
     = Some (Some (double (42 / 10), [(0, 0), (3, 3), (6, 8)]))
   \<and> \<not> isolatedLetter (ascii ''ab-cd efg'') (0, 0)
   \<and> \<not> isolatedLetter (ascii ''ab-cd efg'') (3, 3)"
proof -
  have m: "smartFuzzyMatch (ascii ''ab-cd efg'') (ascii ''acefg'')
     = Some (Some (double (42 / 10), [(0, 0), (3, 3), (6, 8)]))"
    by (simp add: smart_defs ascii_def str_defs score_defs double_eval)
  from C1_isolated_letter_only_last[OF m] m show ?thesis by simp
qed

text \<open>
  Claim C1 as stated fails for the last chunk: the lookahead compares
  \<open>min(3, queryCharsLeft, itemCharsLeft)\<close> characters, which is a single character
  when one query character is left. For the item \<open>ab cd\<close> and the query \<open>ad\<close> the
  result ends with the chunk \<open>[4,4]\<close>, the \<open>d\<close> after \<open>c\<close>.
\<close>

theorem C1_isolated_letter_counterexample:
  "smartFuzzyMatch (ascii ''ab cd'') (ascii ''ad'') = Some (Some (4, [(0, 0), (4, 4)]))
   \<and> isolatedLetter (ascii ''ab cd'') (4, 4)"
  by (simp add: smart_defs ascii_def str_defs score_defs isolatedLetter_def double_eval)

end
